theory Spec2Isabelle
  imports Complex_Main
begin

section \<open>The OTP bot (bot.py): ledger store, inbox matcher, crediting, withdrawals\<close>

text \<open>
  The program is a single Python file. Its persistent state is an SQLite database of
  five tables; every helper opens a connection of its own, runs its statements and
  commits. The model keeps each table as the list of its rows in insertion order and
  each helper as a function from the database to the database after its commit.

  Conventions of the model:
  \<^item> a Python \<^verbatim>\<open>str\<close> that comes from the inbox page or from a chat message is the
    list of its code points (\<open>ustring\<close>); indices and slices count code points, as
    Python's do;
  \<^item> the character classes of the regular expressions (\<^verbatim>\<open>\d\<close>, \<^verbatim>\<open>\w\<close>, and with them
    \<^verbatim>\<open>\b\<close>) and \<^verbatim>\<open>str.lower\<close> are Unicode-aware in Python. On ASCII they are written
    out; beyond ASCII they are read from the Unicode tables of the Python runtime,
    which are no part of the program: the model takes them as the parameter \<open>U\<close>;
  \<^item> SQLite \<^verbatim>\<open>REAL\<close> amounts and Python floats are modelled by \<open>real\<close>, that is with
    exact arithmetic: rounding is not part of the model;
  \<^item> \<^verbatim>\<open>CURRENT_TIMESTAMP\<close> and \<^verbatim>\<open>datetime.now\<close> are a parameter \<open>now\<close> of the
    operation that reads the clock;
  \<^item> the values read from the environment (\<^verbatim>\<open>EARN_PER_SMS\<close>, \<^verbatim>\<open>MIN_WITHDRAWAL\<close>,
    \<^verbatim>\<open>ADMIN_ID\<close>, \<^verbatim>\<open>GROUP_ID\<close>) are fields of a configuration record.
\<close>

subsection \<open>Text and the Unicode tables\<close>

type_synonym ustring = "nat list"

text \<open>\<open>ustr\<close> turns an ASCII literal into the list of its code points.\<close>

definition ustr :: "string \<Rightarrow> ustring" where
  "ustr s = map of_char s"

text \<open>
  The tables of the runtime: \<open>decimal c\<close> says that the code point is a decimal digit
  (category Nd, what \<^verbatim>\<open>\d\<close> matches), \<open>alnum c\<close> that it is alphanumeric in the sense of
  \<^verbatim>\<open>str.isalnum\<close> (with the underscore, what \<^verbatim>\<open>\w\<close> matches), and \<open>lower_str\<close> is
  \<^verbatim>\<open>str.lower\<close>. The model consults them for code points from 128 on only.
\<close>

record unicode =
  decimal :: "nat \<Rightarrow> bool"
  alnum :: "nat \<Rightarrow> bool"
  lower_str :: "ustring \<Rightarrow> ustring"

subsection \<open>Character classes and the two regular expressions\<close>

text \<open>
  \<^verbatim>\<open>\d\<close>: the ASCII digits, and beyond ASCII the decimal digits of the tables.
\<close>

definition is_digit :: "unicode \<Rightarrow> nat \<Rightarrow> bool" where
  "is_digit U c = (if c < 128 then 48 \<le> c \<and> c \<le> 57 else decimal U c)"

text \<open>
  \<^verbatim>\<open>\w\<close>: the ASCII letters, digits and underscore, and beyond ASCII what
  \<^verbatim>\<open>str.isalnum\<close> accepts; that includes every decimal digit, by its definition.
\<close>

definition is_word_char :: "unicode \<Rightarrow> nat \<Rightarrow> bool" where
  "is_word_char U c =
     (if c < 128
      then (48 \<le> c \<and> c \<le> 57) \<or> (65 \<le> c \<and> c \<le> 90) \<or> (97 \<le> c \<and> c \<le> 122) \<or> c = 95
      else alnum U c \<or> decimal U c)"

text \<open>
  \<^verbatim>\<open>\d{6,15}\<close> at the head of a string, greedy: the number of digits consumed, when
  there are at least six.
\<close>

definition digits_6_15 :: "unicode \<Rightarrow> ustring \<Rightarrow> nat option" where
  "digits_6_15 U cs =
     (let n = length (takeWhile (is_digit U) cs)
      in if 6 \<le> n then Some (min n 15) else None)"

text \<open>
  \<^verbatim>\<open>(?:\+?\d{6,15})\<close> at the head of a string: the length of the match. The optional
  plus (code point 43) is greedy; giving it back cannot help, since a plus is not a
  digit.
\<close>

definition number_match :: "unicode \<Rightarrow> ustring \<Rightarrow> nat option" where
  "number_match U cs =
     (case cs of
        [] \<Rightarrow> None
      | c # ds \<Rightarrow>
          if c = 43 then map_option Suc (digits_6_15 U ds) else digits_6_15 U cs)"

lemma number_match_pos: "number_match U cs = Some n \<Longrightarrow> 0 < n"
  by (auto simp: number_match_def digits_6_15_def Let_def split: list.splits if_splits)

text \<open>
  \<^verbatim>\<open>re.finditer(r"(?:\+?\d{6,15})", text)\<close>: the spans \<open>(start, end)\<close> of the matches,
  left to right, each search resuming where the previous match ended.
\<close>

function finditer_number :: "unicode \<Rightarrow> nat \<Rightarrow> ustring \<Rightarrow> (nat \<times> nat) list" where
  "finditer_number U pos page =
     (if length page \<le> pos then []
      else case number_match U (drop pos page) of
             Some n \<Rightarrow> (pos, pos + n) # finditer_number U (pos + n) page
           | None \<Rightarrow> finditer_number U (Suc pos) page)"
  by pat_completeness auto
termination
  by (relation "measure (\<lambda>(U, pos, page). length page - pos)")
     (auto dest: number_match_pos)

text \<open>
  \<^verbatim>\<open>OTP_RE = re.compile(r"\b(\d{4,8})\b")\<close>. A word boundary stands between a word
  character and a non-word character, the two ends of the string counting as non-word.
  \<open>otp_match U prev cs\<close> is the match at a position whose preceding character is a
  word character iff \<open>prev\<close>, with \<open>cs\<close> the rest of the string: the first boundary,
  then the greedy \<^verbatim>\<open>\d{4,8}\<close> tried from eight digits down to four, each followed by
  the second boundary.
\<close>

definition word_at :: "unicode \<Rightarrow> ustring \<Rightarrow> bool" where
  "word_at U cs = (case cs of [] \<Rightarrow> False | c # _ \<Rightarrow> is_word_char U c)"

definition digits_then_boundary :: "unicode \<Rightarrow> ustring \<Rightarrow> nat \<Rightarrow> bool" where
  "digits_then_boundary U cs k =
     (k \<le> length cs \<and> list_all (is_digit U) (take k cs) \<and> \<not> word_at U (drop k cs))"

definition otp_match :: "unicode \<Rightarrow> bool \<Rightarrow> ustring \<Rightarrow> ustring option" where
  "otp_match U prev cs =
     (if prev = word_at U cs then None
      else map_option (\<lambda>k. take k cs) (find (digits_then_boundary U cs) [8, 7, 6, 5, 4]))"

fun otp_search_from :: "unicode \<Rightarrow> bool \<Rightarrow> ustring \<Rightarrow> ustring option" where
  "otp_search_from U prev [] = None"
| "otp_search_from U prev (c # cs) =
     (case otp_match U prev (c # cs) of
        Some m \<Rightarrow> Some m
      | None \<Rightarrow> otp_search_from U (is_word_char U c) cs)"

definition OTP_RE_search :: "unicode \<Rightarrow> ustring \<Rightarrow> ustring option" where
  "OTP_RE_search U window = otp_search_from U False window"

subsection \<open>The database\<close>

type_synonym timestamp = string

datatype wd_status = Pending | Approved

record user_row =
  u_user_id :: int
  u_username :: "string option"
  u_created_at :: timestamp

record earning_row =
  e_user_id :: int
  e_balance :: real

record number_row =
  n_number :: ustring
  n_country :: string
  n_assigned_to :: "int option"
  n_added_at :: timestamp

record otp_row =
  o_id :: nat
  o_number :: ustring
  o_otp :: ustring
  o_full_msg :: ustring
  o_service :: string
  o_country :: string
  o_fetched_at :: timestamp

record withdrawal_row =
  w_id :: nat
  w_user_id :: int
  w_amount :: real
  w_method :: ustring
  w_target :: ustring
  w_status :: wd_status
  w_requested_at :: timestamp

record db =
  users :: "user_row list"
  earnings :: "earning_row list"
  available_numbers :: "number_row list"
  otps :: "otp_row list"
  withdrawals :: "withdrawal_row list"

text \<open>\<^verbatim>\<open>init_db\<close> on a fresh file: the five tables, empty.\<close>

definition init_db :: db where
  "init_db = \<lparr>users = [], earnings = [], available_numbers = [], otps = [], withdrawals = []\<rparr>"

text \<open>
  \<^verbatim>\<open>INTEGER PRIMARY KEY AUTOINCREMENT\<close>: one more than the largest id used so far. No
  statement of the program deletes a row, so that is the largest id in the table.
\<close>

definition next_id :: "nat list \<Rightarrow> nat" where
  "next_id ids = Suc (fold max ids 0)"

subsection \<open>Database helpers\<close>

definition ensure_user :: "db \<Rightarrow> int \<Rightarrow> string option \<Rightarrow> timestamp \<Rightarrow> db" where
  "ensure_user s user_id username now =
     (let s1 = (if list_ex (\<lambda>r. u_user_id r = user_id) (users s) then s
                else s\<lparr>users := users s @
                       [\<lparr>u_user_id = user_id, u_username = username, u_created_at = now\<rparr>]\<rparr>)
      in if list_ex (\<lambda>r. e_user_id r = user_id) (earnings s1) then s1
         else s1\<lparr>earnings := earnings s1 @ [\<lparr>e_user_id = user_id, e_balance = 0\<rparr>]\<rparr>)"

definition get_balance :: "db \<Rightarrow> int \<Rightarrow> real" where
  "get_balance s user_id =
     (case find (\<lambda>r. e_user_id r = user_id) (earnings s) of
        Some row \<Rightarrow> e_balance row
      | None \<Rightarrow> 0)"

definition credit_user :: "db \<Rightarrow> int \<Rightarrow> real \<Rightarrow> db" where
  "credit_user s user_id amount =
     (let s1 = (if list_ex (\<lambda>r. e_user_id r = user_id) (earnings s) then s
                else s\<lparr>earnings := earnings s @ [\<lparr>e_user_id = user_id, e_balance = 0\<rparr>]\<rparr>)
      in s1\<lparr>earnings :=
              map (\<lambda>r. if e_user_id r = user_id then r\<lparr>e_balance := e_balance r + amount\<rparr> else r)
                (earnings s1)\<rparr>)"

definition debit_user :: "db \<Rightarrow> int \<Rightarrow> real \<Rightarrow> bool \<times> db" where
  "debit_user s user_id amount =
     (case find (\<lambda>r. e_user_id r = user_id) (earnings s) of
        None \<Rightarrow> (False, s)
      | Some row \<Rightarrow>
          if e_balance row < amount then (False, s)
          else (True, s\<lparr>earnings :=
                  map (\<lambda>r. if e_user_id r = user_id then r\<lparr>e_balance := e_balance r - amount\<rparr> else r)
                    (earnings s)\<rparr>))"

definition add_available_number :: "db \<Rightarrow> ustring \<Rightarrow> string \<Rightarrow> timestamp \<Rightarrow> db" where
  "add_available_number s number country now =
     (if list_ex (\<lambda>r. n_number r = number) (available_numbers s) then s
      else s\<lparr>available_numbers := available_numbers s @
             [\<lparr>n_number = number, n_country = country, n_assigned_to = None, n_added_at = now\<rparr>]\<rparr>)"

definition assign_number_to_user :: "db \<Rightarrow> int \<Rightarrow> ustring option \<times> db" where
  "assign_number_to_user s user_id =
     (case find (\<lambda>r. n_assigned_to r = None) (available_numbers s) of
        None \<Rightarrow> (None, s)
      | Some row \<Rightarrow>
          (Some (n_number row),
           s\<lparr>available_numbers :=
               map (\<lambda>r. if n_number r = n_number row then r\<lparr>n_assigned_to := Some user_id\<rparr> else r)
                 (available_numbers s)\<rparr>))"

definition get_user_by_number :: "db \<Rightarrow> ustring \<Rightarrow> int option" where
  "get_user_by_number s number =
     (case find (\<lambda>r. n_number r = number) (available_numbers s) of
        Some row \<Rightarrow> n_assigned_to row
      | None \<Rightarrow> None)"

definition otp_exists :: "db \<Rightarrow> ustring \<Rightarrow> ustring \<Rightarrow> bool" where
  "otp_exists s number otp = list_ex (\<lambda>r. o_number r = number \<and> o_otp r = otp) (otps s)"

definition save_otp ::
  "db \<Rightarrow> ustring \<Rightarrow> ustring \<Rightarrow> ustring \<Rightarrow> string \<Rightarrow> string \<Rightarrow> timestamp \<Rightarrow> db" where
  "save_otp s number otp full_msg service country now =
     s\<lparr>otps := otps s @
         [\<lparr>o_id = next_id (map o_id (otps s)), o_number = number, o_otp = otp,
           o_full_msg = full_msg, o_service = service, o_country = country,
           o_fetched_at = now\<rparr>]\<rparr>"

definition create_withdrawal ::
  "db \<Rightarrow> int \<Rightarrow> real \<Rightarrow> ustring \<Rightarrow> ustring \<Rightarrow> timestamp \<Rightarrow> nat \<times> db" where
  "create_withdrawal s user_id amount method target now =
     (let wid = next_id (map w_id (withdrawals s))
      in (wid,
          s\<lparr>withdrawals := withdrawals s @
              [\<lparr>w_id = wid, w_user_id = user_id, w_amount = amount, w_method = method,
                w_target = target, w_status = Pending, w_requested_at = now\<rparr>]\<rparr>))"

definition list_pending_withdrawals :: "db \<Rightarrow> withdrawal_row list" where
  "list_pending_withdrawals s = filter (\<lambda>r. w_status r = Pending) (withdrawals s)"

text \<open>
  \<^verbatim>\<open>approve_withdrawal\<close> runs its two \<^verbatim>\<open>UPDATE\<close>s on one connection and commits once;
  on either early return the connection is closed with nothing written.
\<close>

definition approve_withdrawal :: "db \<Rightarrow> nat \<Rightarrow> bool \<times> db" where
  "approve_withdrawal s wid =
     (case find (\<lambda>r. w_id r = wid \<and> w_status r = Pending) (withdrawals s) of
        None \<Rightarrow> (False, s)
      | Some row \<Rightarrow>
          (case find (\<lambda>r. e_user_id r = w_user_id row) (earnings s) of
             None \<Rightarrow> (False, s)
           | Some bal_row \<Rightarrow>
               if e_balance bal_row < w_amount row then (False, s)
               else (True,
                     s\<lparr>earnings :=
                         map (\<lambda>r. if e_user_id r = w_user_id row
                                  then r\<lparr>e_balance := e_balance r - w_amount row\<rparr> else r)
                           (earnings s),
                       withdrawals :=
                         map (\<lambda>r. if w_id r = wid then r\<lparr>w_status := Approved\<rparr> else r)
                           (withdrawals s)\<rparr>)))"

subsection \<open>Fetching the inbox page\<close>

text \<open>
  What \<^verbatim>\<open>scraper.get(MY_SMS_URL)\<close> gives: a response with its status code and text, or
  an exception. Logging in and the cookie file are outside the model.
\<close>

datatype fetch_result = Response int ustring | FetchError

text \<open>Python's \<^verbatim>\<open>text[i:j]\<close> for \<open>0 \<le> i\<close>, and \<^verbatim>\<open>text[-n:]\<close>.\<close>

definition slice :: "ustring \<Rightarrow> nat \<Rightarrow> nat \<Rightarrow> ustring" where
  "slice text i j = take (j - i) (drop i text)"

definition last_chars :: "nat \<Rightarrow> ustring \<Rightarrow> ustring" where
  "last_chars n text = drop (length text - n) text"

subsection \<open>Inventory sync\<close>

text \<open>\<^verbatim>\<open>re.findall\<close> with no capturing group: the matched substrings.\<close>

definition findall_number :: "unicode \<Rightarrow> ustring \<Rightarrow> ustring list" where
  "findall_number U text = map (\<lambda>(i, j). slice text i j) (finditer_number U 0 text)"

fun sync_loop :: "timestamp \<Rightarrow> ustring list \<Rightarrow> db \<Rightarrow> nat \<Rightarrow> nat \<times> db" where
  "sync_loop now [] s added = (added, s)"
| "sync_loop now (num # nums) s added =
     sync_loop now nums (add_available_number s num ''UNKNOWN'' now) (added + 1)"

text \<open>
  \<^verbatim>\<open>sync_numbers_from_ivasms\<close>. The loop runs over \<^verbatim>\<open>set(found)\<close>, whose iteration order
  Python leaves open; the model takes the distinct matches in order of first appearance
  (\<open>remdups\<close> keeps the last occurrence of each, so the list is reversed around it).
  The status code of the response is not looked at.
\<close>

definition py_set :: "ustring list \<Rightarrow> ustring list" where
  "py_set found = rev (remdups (rev found))"

definition sync_numbers_from_ivasms :: "unicode \<Rightarrow> timestamp \<Rightarrow> fetch_result \<Rightarrow> db \<Rightarrow> nat \<times> db" where
  "sync_numbers_from_ivasms U now fetched s =
     (case fetched of
        FetchError \<Rightarrow> (0, s)
      | Response status text \<Rightarrow> sync_loop now (py_set (findall_number U text)) s 0)"

subsection \<open>OTP detection\<close>

definition lower_char :: "char \<Rightarrow> char" where
  "lower_char c =
     (case map_of (zip ''ABCDEFGHIJKLMNOPQRSTUVWXYZ'' ''abcdefghijklmnopqrstuvwxyz'') c of
        Some d \<Rightarrow> d
      | None \<Rightarrow> c)"

definition upper_char :: "char \<Rightarrow> char" where
  "upper_char c =
     (case map_of (zip ''abcdefghijklmnopqrstuvwxyz'' ''ABCDEFGHIJKLMNOPQRSTUVWXYZ'') c of
        Some d \<Rightarrow> d
      | None \<Rightarrow> c)"

text \<open>
  \<^verbatim>\<open>str.lower\<close>: written out on ASCII text, read from the tables otherwise.
\<close>

definition ascii_lower :: "nat \<Rightarrow> nat" where
  "ascii_lower c = (if 65 \<le> c \<and> c \<le> 90 then c + 32 else c)"

definition lower :: "unicode \<Rightarrow> ustring \<Rightarrow> ustring" where
  "lower U t = (if list_all (\<lambda>c. c < 128) t then map ascii_lower t else lower_str U t)"

text \<open>\<^verbatim>\<open>str.capitalize\<close>, which the program applies to the ASCII service names only.\<close>

definition capitalize :: "string \<Rightarrow> string" where
  "capitalize text = (case text of [] \<Rightarrow> [] | c # cs \<Rightarrow> upper_char c # map lower_char cs)"

fun starts_with :: "ustring \<Rightarrow> ustring \<Rightarrow> bool" where
  "starts_with [] text = True"
| "starts_with (p # ps) [] = False"
| "starts_with (p # ps) (c # cs) = (p = c \<and> starts_with ps cs)"

text \<open>\<open>str_in p text\<close> is Python's \<^verbatim>\<open>p in text\<close> on strings.\<close>

fun str_in :: "ustring \<Rightarrow> ustring \<Rightarrow> bool" where
  "str_in p [] = (p = [])"
| "str_in p (c # cs) = (starts_with p (c # cs) \<or> str_in p cs)"

definition services :: "string list" where
  "services = [''whatsapp'', ''facebook'', ''telegram'', ''google'', ''instagram'',
               ''tiktok'', ''netflix'', ''clerk'']"

definition detect_service :: "unicode \<Rightarrow> ustring \<Rightarrow> string" where
  "detect_service U text =
     (case find (\<lambda>s. str_in (ustr s) (lower U text)) services of
        Some s \<Rightarrow> capitalize s
      | None \<Rightarrow> ''Service'')"

type_synonym otp_result = "ustring \<times> ustring \<times> ustring \<times> string \<times> string"

text \<open>
  The body of the loop of \<^verbatim>\<open>process_incoming_otps_single_scraper\<close> up to the choice of
  the code: the forward window of 400 characters after the match, then, when it holds
  no code, the 200 characters before the match (\<open>m_start - 200\<close> is the truncated
  subtraction of \<open>nat\<close>, that is \<^verbatim>\<open>max(0, m.start()-200)\<close>).
\<close>

definition find_otp :: "unicode \<Rightarrow> ustring \<Rightarrow> nat \<times> nat \<Rightarrow> ustring option" where
  "find_otp U text m =
     (let window = slice text (snd m) (snd m + 400)
      in case OTP_RE_search U window of
           Some otp \<Rightarrow> Some otp
         | None \<Rightarrow> OTP_RE_search U (slice text (fst m - 200) (fst m)))"

text \<open>
  The snippet. The source reads \<^verbatim>\<open>back_window\<close> only when \<^verbatim>\<open>window\<close> is empty; then the
  forward search has failed and \<^verbatim>\<open>back_window\<close> is the one of this iteration.
\<close>

definition snippet_of :: "ustring \<Rightarrow> nat \<times> nat \<Rightarrow> ustring" where
  "snippet_of text m =
     (let window = slice text (snd m) (snd m + 400);
          back_window = slice text (fst m - 200) (fst m)
      in if window \<noteq> [] \<or> back_window \<noteq> []
         then (if take 300 window \<noteq> [] then take 300 window else last_chars 300 back_window)
         else [])"

fun process_loop ::
  "unicode \<Rightarrow> timestamp \<Rightarrow> ustring \<Rightarrow> (nat \<times> nat) list \<Rightarrow> db \<Rightarrow> otp_result list
     \<Rightarrow> db \<times> otp_result list" where
  "process_loop U now text [] s results = (s, results)"
| "process_loop U now text (m # ms) s results =
     (let number = slice text (fst m) (snd m)
      in case find_otp U text m of
           None \<Rightarrow> process_loop U now text ms s results
         | Some otp \<Rightarrow>
             if otp_exists s number otp then process_loop U now text ms s results
             else
               (let snippet = snippet_of text m;
                    svc = detect_service U snippet;
                    country = ''UNKNOWN''
                in process_loop U now text ms
                     (save_otp s number otp snippet svc country now)
                     (results @ [(number, otp, snippet, svc, country)])))"

definition process_incoming_otps_single_scraper ::
  "unicode \<Rightarrow> timestamp \<Rightarrow> fetch_result \<Rightarrow> db \<Rightarrow> db \<times> otp_result list" where
  "process_incoming_otps_single_scraper U now fetched s =
     (case fetched of
        FetchError \<Rightarrow> (s, [])
      | Response status text \<Rightarrow>
          if status \<noteq> 200 then (s, [])
          else process_loop U now text (finditer_number U 0 text) s [])"

subsection \<open>Configuration, bot state and what the bot sends\<close>

record config =
  EARN_PER_SMS :: real
  MIN_WITHDRAWAL :: real
  ADMIN_ID :: int
  GROUP_ID :: int

text \<open>
  The bot keeps, beside the database, the dictionary \<^verbatim>\<open>user_states\<close> of the withdraw
  dialogue.
\<close>

record bot =
  store :: db
  user_states :: "int \<rightharpoonup> string"

text \<open>
  Everything a handler or the poll loop sends, one constructor for each sending
  statement of the source: the replies to the message or button at hand, and the
  \<^verbatim>\<open>bot.send_message\<close> calls with their recipient. The formatted text is kept as its
  arguments. A send that raises is swallowed by the source; the output is the attempt.
\<close>

datatype outmsg =
    Welcome
  | NoNumbersAvailable
  | NumberAssigned ustring
  | AccountInfo real "ustring list"
  | BelowMinimum real real
  | AskWithdrawInfo
  | InsufficientBalance
  | WithdrawalCreated nat real
  | AdminWithdrawalRequest int nat int ustring ustring real
  | Synced nat
  | NoPendingWithdrawals
  | PendingWithdrawals "withdrawal_row list"
  | ApprovedReply nat
  | UserWithdrawalApproved int nat real
  | ApprovalFailed
  | Stats nat nat nat
  | GroupOtp int otp_result
  | OwnerOtp int otp_result
  | AdminOtp int ustring ustring

subsection \<open>The poll cycle\<close>

text \<open>
  The body of the \<^verbatim>\<open>for\<close> loop of \<^verbatim>\<open>otp_poll_loop\<close> over the results. \<^verbatim>\<open>if owner:\<close> is
  Python truth: the owner is neither \<^verbatim>\<open>None\<close> nor \<open>0\<close>.
\<close>

fun credit_loop :: "config \<Rightarrow> otp_result list \<Rightarrow> db \<Rightarrow> outmsg list \<Rightarrow> db \<times> outmsg list" where
  "credit_loop cfg [] s out = (s, out)"
| "credit_loop cfg (r # rs) s out =
     (let out1 = (if GROUP_ID cfg \<noteq> 0 then out @ [GroupOtp (GROUP_ID cfg) r] else out);
          owner = get_user_by_number s (fst r)
      in case owner of
           None \<Rightarrow> credit_loop cfg rs s (out1 @ [AdminOtp (ADMIN_ID cfg) (fst r) (fst (snd r))])
         | Some u \<Rightarrow>
             if u = 0
             then credit_loop cfg rs s (out1 @ [AdminOtp (ADMIN_ID cfg) (fst r) (fst (snd r))])
             else credit_loop cfg rs (credit_user s u (EARN_PER_SMS cfg))
                    (out1 @ [OwnerOtp u r, AdminOtp (ADMIN_ID cfg) (fst r) (fst (snd r))]))"

text \<open>
  One turn of \<^verbatim>\<open>otp_poll_loop\<close>: the matcher, which commits every new history record,
  and after it the loop that credits the owners.
\<close>

definition otp_poll_cycle :: "unicode \<Rightarrow> config \<Rightarrow> timestamp \<Rightarrow> fetch_result \<Rightarrow> db \<Rightarrow> db \<times> outmsg list" where
  "otp_poll_cycle U cfg now fetched s =
     (let (s1, results) = process_incoming_otps_single_scraper U now fetched s
      in credit_loop cfg results s1 [])"

subsection \<open>Handlers\<close>

definition cmd_start :: "bot \<Rightarrow> int \<Rightarrow> string option \<Rightarrow> timestamp \<Rightarrow> bot \<times> outmsg list" where
  "cmd_start b uid uname now = (b\<lparr>store := ensure_user (store b) uid uname now\<rparr>, [Welcome])"

definition cb_get_number :: "bot \<Rightarrow> int \<Rightarrow> string option \<Rightarrow> timestamp \<Rightarrow> bot \<times> outmsg list" where
  "cb_get_number b uid uname now =
     (let s1 = ensure_user (store b) uid uname now
      in case assign_number_to_user s1 uid of
           (None, s2) \<Rightarrow> (b\<lparr>store := s2\<rparr>, [NoNumbersAvailable])
         | (Some num, s2) \<Rightarrow> (b\<lparr>store := s2\<rparr>, [NumberAssigned num]))"

definition cb_account :: "bot \<Rightarrow> int \<Rightarrow> string option \<Rightarrow> timestamp \<Rightarrow> bot \<times> outmsg list" where
  "cb_account b uid uname now =
     (let s1 = ensure_user (store b) uid uname now
      in (b\<lparr>store := s1\<rparr>,
          [AccountInfo (get_balance s1 uid)
             (map n_number (filter (\<lambda>r. n_assigned_to r = Some uid) (available_numbers s1)))]))"

definition cb_withdraw ::
  "config \<Rightarrow> bot \<Rightarrow> int \<Rightarrow> string option \<Rightarrow> timestamp \<Rightarrow> bot \<times> outmsg list" where
  "cb_withdraw cfg b uid uname now =
     (let s1 = ensure_user (store b) uid uname now;
          bal = get_balance s1 uid
      in if bal < MIN_WITHDRAWAL cfg
         then (b\<lparr>store := s1\<rparr>, [BelowMinimum (MIN_WITHDRAWAL cfg) bal])
         else (b\<lparr>store := s1, user_states := (user_states b)(uid \<mapsto> ''awaiting_withdraw'')\<rparr>,
               [AskWithdrawInfo]))"

text \<open>
  \<^verbatim>\<open>handle_withdraw_text\<close> runs on a message of the form \<^verbatim>\<open>method,number,amount\<close> (the
  filter of the handler: a method name, digits, an unsigned decimal). The model takes
  the three parts already split and stripped, the amount as the number it denotes.
\<close>

definition handle_withdraw_text ::
  "unicode \<Rightarrow> config \<Rightarrow> bot \<Rightarrow> int \<Rightarrow> ustring \<Rightarrow> ustring \<Rightarrow> real \<Rightarrow> timestamp \<Rightarrow> bot \<times> outmsg list" where
  "handle_withdraw_text U cfg b uid method number amount now =
     (if user_states b uid \<noteq> Some ''awaiting_withdraw'' then (b, [])
      else
        (let bal = get_balance (store b) uid
         in if amount > bal
            then (b\<lparr>user_states := (user_states b)(uid := None)\<rparr>, [InsufficientBalance])
            else
              (let (wid, s1) = create_withdrawal (store b) uid amount (lower U method) number now
               in (b\<lparr>store := s1, user_states := (user_states b)(uid := None)\<rparr>,
                   [WithdrawalCreated wid amount,
                    AdminWithdrawalRequest (ADMIN_ID cfg) wid uid method number amount]))))"

definition cmd_sync ::
  "unicode \<Rightarrow> config \<Rightarrow> bot \<Rightarrow> int \<Rightarrow> timestamp \<Rightarrow> fetch_result \<Rightarrow> bot \<times> outmsg list" where
  "cmd_sync U cfg b sender now fetched =
     (if sender \<noteq> ADMIN_ID cfg then (b, [])
      else (let (added, s1) = sync_numbers_from_ivasms U now fetched (store b)
            in (b\<lparr>store := s1\<rparr>, [Synced added])))"

definition cmd_withdrawals :: "config \<Rightarrow> bot \<Rightarrow> int \<Rightarrow> bot \<times> outmsg list" where
  "cmd_withdrawals cfg b sender =
     (if sender \<noteq> ADMIN_ID cfg then (b, [])
      else (let rows = list_pending_withdrawals (store b)
            in if rows = [] then (b, [NoPendingWithdrawals]) else (b, [PendingWithdrawals rows])))"

definition cmd_approve :: "config \<Rightarrow> bot \<Rightarrow> int \<Rightarrow> nat \<Rightarrow> bot \<times> outmsg list" where
  "cmd_approve cfg b sender wid =
     (if sender \<noteq> ADMIN_ID cfg then (b, [])
      else (let (ok, s1) = approve_withdrawal (store b) wid
            in if ok
               then (b\<lparr>store := s1\<rparr>,
                     ApprovedReply wid #
                     (case find (\<lambda>r. w_id r = wid) (withdrawals s1) of
                        Some row \<Rightarrow> [UserWithdrawalApproved (w_user_id row) wid (w_amount row)]
                      | None \<Rightarrow> []))
               else (b\<lparr>store := s1\<rparr>, [ApprovalFailed])))"

definition cmd_stats :: "config \<Rightarrow> bot \<Rightarrow> int \<Rightarrow> bot \<times> outmsg list" where
  "cmd_stats cfg b sender =
     (if sender \<noteq> ADMIN_ID cfg then (b, [])
      else (b, [Stats (length (available_numbers (store b)))
                  (length (filter (\<lambda>r. n_assigned_to r = None) (available_numbers (store b))))
                  (length (users (store b)))]))"

subsection \<open>Shapes of digit runs, and keys of the OTP history\<close>

text \<open>
  \<open>has_digit_run prev_digit w\<close>: somewhere in \<open>w\<close> a maximal run of digits has 4 to 8
  of them (\<open>prev_digit\<close> tells whether a digit stands right before \<open>w\<close>).
  \<open>phone_shaped t\<close>: the whole of \<open>t\<close> matches the number pattern.
\<close>

fun has_digit_run :: "unicode \<Rightarrow> bool \<Rightarrow> ustring \<Rightarrow> bool" where
  "has_digit_run U prev_digit [] = False"
| "has_digit_run U prev_digit (c # cs) =
     ((\<not> prev_digit \<and> 4 \<le> length (takeWhile (is_digit U) (c # cs))
         \<and> length (takeWhile (is_digit U) (c # cs)) \<le> 8)
      \<or> has_digit_run U (is_digit U c) cs)"

definition code_run_in :: "unicode \<Rightarrow> ustring \<Rightarrow> bool" where
  "code_run_in U w = has_digit_run U False w"

definition phone_shaped :: "unicode \<Rightarrow> ustring \<Rightarrow> bool" where
  "phone_shaped U t = (number_match U t = Some (length t))"

lemma is_digit_word: "is_digit U c \<Longrightarrow> is_word_char U c"
  by (auto simp: is_digit_def is_word_char_def)

lemma find_8_4: "find P [8, 7, 6, 5, 4 :: nat] = Some k \<Longrightarrow> P k \<and> 4 \<le> k \<and> k \<le> 8"
  by (auto split: if_splits)

lemma takeWhile_digits_eq:
  assumes "k \<le> length cs" "list_all (is_digit U) (take k cs)" "\<not> word_at U (drop k cs)"
  shows "length (takeWhile (is_digit U) cs) = k"
proof -
  have cs: "cs = take k cs @ drop k cs" by simp
  have nd: "drop k cs = [] \<or> \<not> is_digit U (hd (drop k cs))"
    using assms(3) is_digit_word by (auto simp: word_at_def split: list.splits)
  have "takeWhile (is_digit U) (take k cs @ drop k cs) = take k cs"
    using assms(2) nd
    by (cases "drop k cs") (auto simp: takeWhile_append2 list_all_iff simp del: append_take_drop_id)
  then show ?thesis using assms(1) by simp
qed

lemma otp_match_SomeD:
  assumes "otp_match U prev cs = Some otp"
  shows "\<not> prev \<and> 4 \<le> length otp \<and> length otp \<le> 8 \<and> list_all (is_digit U) otp
         \<and> otp = take (length otp) cs \<and> length (takeWhile (is_digit U) cs) = length otp"
proof -
  from assms obtain k where ne: "prev \<noteq> word_at U cs"
    and f: "find (digits_then_boundary U cs) [8, 7, 6, 5, 4] = Some k" and otp: "otp = take k cs"
    by (auto simp: otp_match_def split: if_splits)
  from find_8_4 [OF f] have d: "digits_then_boundary U cs k" and k: "4 \<le> k" "k \<le> 8" by auto
  from d have kl: "k \<le> length cs" and dg: "list_all (is_digit U) (take k cs)"
    and nb: "\<not> word_at U (drop k cs)" by (auto simp: digits_then_boundary_def)
  have len: "length otp = k" using otp kl by simp
  from k kl obtain c cs' where cs: "cs = c # cs'" by (cases cs) auto
  with dg k have "is_digit U c" by (cases k) auto
  then have "word_at U cs" using cs is_digit_word by (simp add: word_at_def)
  with ne have "\<not> prev" by simp
  moreover have "length (takeWhile (is_digit U) cs) = k"
    by (rule takeWhile_digits_eq [OF kl dg nb])
  ultimately show ?thesis using len k dg otp by simp
qed

lemma otp_search_from_SomeD:
  "otp_search_from U prev w = Some otp \<Longrightarrow>
     4 \<le> length otp \<and> length otp \<le> 8 \<and> list_all (is_digit U) otp"
proof (induction w arbitrary: prev)
  case Nil
  then show ?case by simp
next
  case (Cons c cs)
  show ?case
  proof (cases "otp_match U prev (c # cs)")
    case None
    with Cons.prems have "otp_search_from U (is_word_char U c) cs = Some otp" by simp
    then show ?thesis by (rule Cons.IH)
  next
    case (Some m)
    with Cons.prems have "m = otp" by simp
    with Some otp_match_SomeD [of U prev "c # cs" otp] show ?thesis by simp
  qed
qed

lemma otp_search_from_run:
  "otp_search_from U prev w = Some otp \<Longrightarrow> (pd \<longrightarrow> prev) \<Longrightarrow> has_digit_run U pd w"
proof (induction w arbitrary: prev pd)
  case Nil
  then show ?case by simp
next
  case (Cons c cs)
  show ?case
  proof (cases "otp_match U prev (c # cs)")
    case None
    with Cons.prems have s: "otp_search_from U (is_word_char U c) cs = Some otp" by simp
    have "has_digit_run U (is_digit U c) cs"
      by (rule Cons.IH [OF s]) (simp add: is_digit_word)
    then show ?thesis by simp
  next
    case (Some m)
    from otp_match_SomeD [OF Some] Cons.prems(2) show ?thesis by simp
  qed
qed


lemma takeWhile_digit_append:
  "g \<noteq> [] \<Longrightarrow> \<not> is_digit U (last g) \<Longrightarrow> takeWhile (is_digit U) (g @ w) = takeWhile (is_digit U) g"
proof -
  assume "g \<noteq> []" "\<not> is_digit U (last g)"
  then have "\<exists>x\<in>set g. \<not> is_digit U x" using last_in_set by blast
  then obtain x where "x \<in> set g" "\<not> is_digit U x" by blast
  then show ?thesis by (rule takeWhile_append1)
qed

lemma otp_search_from_skip:
  "g \<noteq> [] \<Longrightarrow> \<not> is_word_char U (last g) \<Longrightarrow> (pd \<longrightarrow> prev) \<Longrightarrow> \<not> has_digit_run U pd g
     \<Longrightarrow> otp_search_from U prev (g @ w) = otp_search_from U False w"
proof (induction g arbitrary: prev pd)
  case Nil
  then show ?case by simp
next
  case (Cons c g)
  have nd: "\<not> is_digit U (last (c # g))" using Cons.prems(2) is_digit_word by blast
  have none: "otp_match U prev (c # g @ w) = None"
  proof (cases "otp_match U prev (c # g @ w)")
    case None
    then show ?thesis .
  next
    case (Some m)
    from otp_match_SomeD [OF Some]
    have np: "\<not> prev" and l: "4 \<le> length m" "length m \<le> 8"
      and tw: "length (takeWhile (is_digit U) (c # g @ w)) = length m" by auto
    have "takeWhile (is_digit U) ((c # g) @ w) = takeWhile (is_digit U) (c # g)"
      by (rule takeWhile_digit_append [OF _ nd]) simp
    with tw have "length (takeWhile (is_digit U) (c # g)) = length m" by simp
    with l np Cons.prems(3) have "has_digit_run U pd (c # g)" by simp
    with Cons.prems(4) show ?thesis by simp
  qed
  show ?case
  proof (cases g)
    case Nil
    with Cons.prems(2) none show ?thesis by simp
  next
    case (Cons d g')
    then have ne: "g \<noteq> []" and la: "\<not> is_word_char U (last g)"
      using Cons.prems(2) by auto
    have nr: "\<not> has_digit_run U (is_digit U c) g" using Cons.prems(4) by simp
    have "otp_search_from U (is_word_char U c) (g @ w) = otp_search_from U False w"
      by (rule Cons.IH [OF ne la _ nr]) (simp add: is_digit_word)
    with none show ?thesis by simp
  qed
qed

lemma find_eq_8_4:
  "4 \<le> n \<Longrightarrow> n \<le> 8 \<Longrightarrow> (\<And>k. P k \<longleftrightarrow> k = n) \<Longrightarrow> find P [8, 7, 6, 5, 4 :: nat] = Some n"
  by (auto simp: numeral_eq_Suc le_Suc_eq)

lemma otp_match_code:
  assumes "4 \<le> length code" "length code \<le> 8" "list_all (is_digit U) code"
    and "rest = [] \<or> \<not> is_word_char U (hd rest)"
  shows "otp_match U False (code @ rest) = Some code"
proof -
  let ?cs = "code @ rest"
  have nw: "\<not> word_at U rest" using assms(4) by (auto simp: word_at_def split: list.splits)
  have here: "digits_then_boundary U ?cs (length code)"
    using assms(3) nw by (simp add: digits_then_boundary_def)
  have run: "length (takeWhile (is_digit U) ?cs) = length code"
    using here by (intro takeWhile_digits_eq) (auto simp: digits_then_boundary_def)
  have iff: "digits_then_boundary U ?cs k \<longleftrightarrow> k = length code" for k
  proof
    assume "digits_then_boundary U ?cs k"
    then have "length (takeWhile (is_digit U) ?cs) = k"
      by (intro takeWhile_digits_eq) (auto simp: digits_then_boundary_def)
    with run show "k = length code" by simp
  next
    assume "k = length code"
    with here show "digits_then_boundary U ?cs k" by simp
  qed
  have f: "find (digits_then_boundary U ?cs) [8, 7, 6, 5, 4] = Some (length code)"
    by (rule find_eq_8_4 [OF assms(1,2) iff])
  obtain c cs where code: "code = c # cs" using assms(1) by (cases code) auto
  with assms(3) have "word_at U ?cs" by (simp add: word_at_def is_digit_word)
  with f show ?thesis by (simp add: otp_match_def)
qed

lemma OTP_RE_search_window:
  assumes "\<not> code_run_in U gap" "gap = [] \<or> \<not> is_word_char U (last gap)"
    and "4 \<le> length code" "length code \<le> 8" "list_all (is_digit U) code"
    and "rest = [] \<or> \<not> is_word_char U (hd rest)"
  shows "OTP_RE_search U (gap @ code @ rest) = Some code"
proof -
  obtain c cs where code: "code = c # cs" using assms(3) by (cases code) auto
  have m: "otp_search_from U False (code @ rest) = Some code"
    using otp_match_code [OF assms(3-6)] code by simp
  show ?thesis
  proof (cases "gap = []")
    case True
    with m show ?thesis by (simp add: OTP_RE_search_def)
  next
    case False
    with assms(2) have la: "\<not> is_word_char U (last gap)" by simp
    have "otp_search_from U False (gap @ code @ rest) = otp_search_from U False (code @ rest)"
      by (rule otp_search_from_skip [OF False la]) (use assms(1) in \<open>simp_all add: code_run_in_def\<close>)
    with m show ?thesis by (simp add: OTP_RE_search_def)
  qed
qed

lemma phone_shaped_digits:
  assumes "list_all (is_digit U) t" "t \<noteq> []" "length t \<le> 15"
  shows "phone_shaped U t \<longleftrightarrow> 6 \<le> length t"
proof -
  obtain c cs where t: "t = c # cs" using assms(2) by (cases t) auto
  have tw: "takeWhile (is_digit U) t = t" using assms(1) by (simp add: list_all_iff)
  have "c \<noteq> 43" using assms(1) t by (auto simp: is_digit_def)
  then have "number_match U t = digits_6_15 U t" using t by (simp add: number_match_def)
  then show ?thesis using tw assms(3) by (auto simp: phone_shaped_def digits_6_15_def Let_def)
qed


definition otp_keys :: "db \<Rightarrow> (ustring \<times> ustring) list" where
  "otp_keys s = map (\<lambda>r. (o_number r, o_otp r)) (otps s)"

definition result_keys :: "otp_result list \<Rightarrow> (ustring \<times> ustring) list" where
  "result_keys results = map (\<lambda>r. (fst r, fst (snd r))) results"

definition otp_shaped :: "unicode \<Rightarrow> ustring \<Rightarrow> bool" where
  "otp_shaped U otp = (4 \<le> length otp \<and> length otp \<le> 8 \<and> list_all (is_digit U) otp)"

lemma otp_exists_keys: "otp_exists s number otp \<longleftrightarrow> (number, otp) \<in> set (otp_keys s)"
  by (auto simp: otp_exists_def otp_keys_def list_ex_iff)

lemma otp_keys_save_otp:
  "otp_keys (save_otp s number otp full_msg svc country now) = otp_keys s @ [(number, otp)]"
  by (simp add: otp_keys_def save_otp_def)

lemma find_otp_shaped: "find_otp U text m = Some otp \<Longrightarrow> otp_shaped U otp"
  by (auto simp: find_otp_def OTP_RE_search_def otp_shaped_def Let_def
        dest: otp_search_from_SomeD split: option.splits)

lemma process_loop_mono:
  "set results \<subseteq> set (snd (process_loop U now text ms s results))"
proof (induction ms arbitrary: s results)
  case Nil
  then show ?case by simp
next
  case (Cons m ms)
  show ?case
  proof (cases "find_otp U text m")
    case None
    then show ?thesis using Cons.IH [of results s] by simp
  next
    case (Some otp)
    show ?thesis
    proof (cases "otp_exists s (slice text (fst m) (snd m)) otp")
      case True
      with Some show ?thesis using Cons.IH [of results s] by simp
    next
      case False
      let ?r = "(slice text (fst m) (snd m), otp, snippet_of text m,
                 detect_service U (snippet_of text m), ''UNKNOWN'')"
      let ?s = "save_otp s (slice text (fst m) (snd m)) otp (snippet_of text m)
                 (detect_service U (snippet_of text m)) ''UNKNOWN'' now"
      have "set (results @ [?r]) \<subseteq> set (snd (process_loop U now text ms ?s (results @ [?r])))"
        by (rule Cons.IH)
      with Some False show ?thesis by (simp add: Let_def)
    qed
  qed
qed

lemma process_loop_shape:
  "list_all (\<lambda>r. otp_shaped U (fst (snd r))) results \<Longrightarrow>
   list_all (\<lambda>r. otp_shaped U (fst (snd r))) (snd (process_loop U now text ms s results))"
proof (induction ms arbitrary: s results)
  case Nil
  then show ?case by simp
next
  case (Cons m ms)
  show ?case
  proof (cases "find_otp U text m")
    case None
    then show ?thesis using Cons by simp
  next
    case (Some otp)
    then have sh: "otp_shaped U otp" by (rule find_otp_shaped)
    show ?thesis
    proof (cases "otp_exists s (slice text (fst m) (snd m)) otp")
      case True
      with Some show ?thesis using Cons by simp
    next
      case False
      with Some sh show ?thesis using Cons.prems by (simp add: Let_def Cons.IH)
    qed
  qed
qed

lemma process_loop_yields:
  "m \<in> set ms \<Longrightarrow> find_otp U text m = Some otp \<Longrightarrow>
   otp_exists s (slice text (fst m) (snd m)) otp
   \<or> (slice text (fst m) (snd m), otp) \<in> set (result_keys (snd (process_loop U now text ms s results)))"
proof (induction ms arbitrary: s results)
  case Nil
  then show ?case by simp
next
  case (Cons a ms)
  let ?n = "slice text (fst a) (snd a)"
  let ?k = "(slice text (fst m) (snd m), otp)"
  show ?case
  proof (cases "find_otp U text a")
    case None
    with Cons.prems have "m \<in> set ms" by auto
    from Cons.IH [OF this Cons.prems(2), of s results] None show ?thesis by simp
  next
    case (Some o')
    show ?thesis
    proof (cases "otp_exists s ?n o'")
      case True
      show ?thesis
      proof (cases "m = a")
        case True
        with \<open>otp_exists s ?n o'\<close> Some Cons.prems(2) show ?thesis by simp
      next
        case False
        with Cons.prems have "m \<in> set ms" by auto
        from Cons.IH [OF this Cons.prems(2), of s results] Some True show ?thesis by simp
      qed
    next
      case False
      let ?r = "(?n, o', snippet_of text a, detect_service U (snippet_of text a), ''UNKNOWN'')"
      let ?s = "save_otp s ?n o' (snippet_of text a) (detect_service U (snippet_of text a)) ''UNKNOWN'' now"
      have step: "process_loop U now text (a # ms) s results = process_loop U now text ms ?s (results @ [?r])"
        using Some False by (simp add: Let_def)
      have mono: "set (results @ [?r]) \<subseteq> set (snd (process_loop U now text ms ?s (results @ [?r])))"
        by (rule process_loop_mono)
      then have inr: "(?n, o') \<in> set (result_keys (snd (process_loop U now text ms ?s (results @ [?r]))))"
        by (force simp: result_keys_def)
      show ?thesis
      proof (cases "?k = (?n, o')")
        case True
        with inr step show ?thesis by simp
      next
        case neq: False
        then have "m \<noteq> a" using Some Cons.prems(2) by auto
        with Cons.prems have "m \<in> set ms" by auto
        from Cons.IH [OF this Cons.prems(2), of ?s "results @ [?r]"]
        have "otp_exists ?s (slice text (fst m) (snd m)) otp
              \<or> ?k \<in> set (result_keys (snd (process_loop U now text ms ?s (results @ [?r]))))" .
        moreover have "otp_exists ?s (slice text (fst m) (snd m)) otp
              \<longleftrightarrow> otp_exists s (slice text (fst m) (snd m)) otp"
          using neq by (auto simp: otp_exists_keys otp_keys_save_otp)
        ultimately show ?thesis using step by simp
      qed
    qed
  qed
qed

lemma find_otp_forward:
  assumes d: "drop (snd m) text = gap @ code @ rest"
    and g: "\<not> code_run_in U gap" "gap = [] \<or> \<not> is_word_char U (last gap)"
    and c: "otp_shaped U code"
    and r: "rest = [] \<or> \<not> is_word_char U (hd rest)"
    and l: "length gap + length code \<le> 400"
  shows "find_otp U text m = Some code"
proof -
  let ?rest = "take (400 - (length gap + length code)) rest"
  have w: "slice text (snd m) (snd m + 400) = gap @ code @ ?rest"
    using d l by (simp add: slice_def)
  have r': "?rest = [] \<or> \<not> is_word_char U (hd ?rest)"
    using r by (cases rest; cases "400 - (length gap + length code)") auto
  have "OTP_RE_search U (gap @ code @ ?rest) = Some code"
    using g c r' by (intro OTP_RE_search_window) (auto simp: otp_shaped_def)
  with w show ?thesis by (simp add: find_otp_def)
qed

lemma find_otp_none:
  assumes "\<not> code_run_in U (slice text (snd m) (snd m + 400))"
    and "\<not> code_run_in U (slice text (fst m - 200) (fst m))"
  shows "find_otp U text m = None"
proof -
  have "OTP_RE_search U w = None" if "\<not> code_run_in U w" for w
  proof (cases "OTP_RE_search U w")
    case None
    then show ?thesis .
  next
    case (Some otp)
    then have "has_digit_run U False w"
      by (intro otp_search_from_run [where prev = False and otp = otp]) (simp_all add: OTP_RE_search_def)
    with that show ?thesis by (simp add: code_run_in_def)
  qed
  with assms show ?thesis by (simp add: find_otp_def)
qed

lemma no_digit_no_run: "list_all (\<lambda>c. \<not> is_digit U c) w \<Longrightarrow> \<not> has_digit_run U pd w"
  by (induction w arbitrary: pd) auto

lemma otp_match_boundary:
  assumes "otp_match U prev cs = Some otp"
  shows "\<not> prev \<and> (\<exists>post. cs = otp @ post \<and> (post = [] \<or> \<not> is_word_char U (hd post)))"
proof -
  from assms obtain k where
    f: "find (digits_then_boundary U cs) [8, 7, 6, 5, 4] = Some k" and otp: "otp = take k cs"
    by (auto simp: otp_match_def split: if_splits)
  from find_8_4 [OF f] have "digits_then_boundary U cs k" by simp
  then have nb: "\<not> word_at U (drop k cs)" by (simp add: digits_then_boundary_def)
  have "cs = otp @ drop k cs" using otp by simp
  moreover have "drop k cs = [] \<or> \<not> is_word_char U (hd (drop k cs))"
    using nb by (cases "drop k cs") (simp_all add: word_at_def)
  ultimately have "\<exists>post. cs = otp @ post \<and> (post = [] \<or> \<not> is_word_char U (hd post))"
    by blast
  with otp_match_SomeD [OF assms] show ?thesis by simp
qed

lemma otp_search_from_bounded:
  "otp_search_from U prev w = Some otp \<Longrightarrow>
     \<exists>pre post. w = pre @ otp @ post
        \<and> (if pre = [] then \<not> prev else \<not> is_word_char U (last pre))
        \<and> (post = [] \<or> \<not> is_word_char U (hd post))"
proof (induction w arbitrary: prev)
  case Nil
  then show ?case by simp
next
  case (Cons c cs)
  show ?case
  proof (cases "otp_match U prev (c # cs)")
    case (Some m)
    with Cons.prems have "m = otp" by simp
    with otp_match_boundary [OF Some] obtain post where
      "c # cs = [] @ otp @ post" "\<not> prev" "post = [] \<or> \<not> is_word_char U (hd post)" by auto
    then show ?thesis by (intro exI [of _ "[]"] exI [of _ post]) simp
  next
    case None
    with Cons.prems have "otp_search_from U (is_word_char U c) cs = Some otp" by simp
    from Cons.IH [OF this] obtain pre post where cs: "cs = pre @ otp @ post"
      and b: "if pre = [] then \<not> is_word_char U c else \<not> is_word_char U (last pre)"
      and a: "post = [] \<or> \<not> is_word_char U (hd post)" by blast
    have "c # cs = (c # pre) @ otp @ post" using cs by simp
    moreover have "\<not> is_word_char U (last (c # pre))" using b by (cases pre) simp_all
    ultimately show ?thesis using a by (intro exI [of _ "c # pre"] exI [of _ post]) simp
  qed
qed

lemma OTP_RE_search_bounded:
  assumes "OTP_RE_search U w = Some otp"
  shows "\<exists>pre post. w = pre @ otp @ post
           \<and> (pre = [] \<or> \<not> is_word_char U (last pre))
           \<and> (post = [] \<or> \<not> is_word_char U (hd post))"
proof -
  from assms have "otp_search_from U False w = Some otp" by (simp add: OTP_RE_search_def)
  from otp_search_from_bounded [OF this] obtain pre post where "w = pre @ otp @ post"
    "if pre = [] then \<not> False else \<not> is_word_char U (last pre)"
    "post = [] \<or> \<not> is_word_char U (hd post)" by blast
  then show ?thesis by (intro exI [of _ pre] exI [of _ post]) (simp split: if_splits)
qed

lemma find_otp_bounded:
  assumes "find_otp U text m = Some otp"
  shows "\<exists>pre post.
           (slice text (snd m) (snd m + 400) = pre @ otp @ post
            \<or> slice text (fst m - 200) (fst m) = pre @ otp @ post)
           \<and> (pre = [] \<or> \<not> is_word_char U (last pre))
           \<and> (post = [] \<or> \<not> is_word_char U (hd post))"
proof (cases "OTP_RE_search U (slice text (snd m) (snd m + 400))")
  case (Some o1)
  with assms have "o1 = otp" by (simp add: find_otp_def)
  with OTP_RE_search_bounded [OF Some] show ?thesis by blast
next
  case None
  with assms have "OTP_RE_search U (slice text (fst m - 200) (fst m)) = Some otp"
    by (simp add: find_otp_def)
  from OTP_RE_search_bounded [OF this] show ?thesis by blast
qed

lemma process_loop_origin:
  "r \<in> set (snd (process_loop U now text ms s results)) \<Longrightarrow>
   r \<in> set results
   \<or> (\<exists>m \<in> set ms. fst r = slice text (fst m) (snd m) \<and> find_otp U text m = Some (fst (snd r)))"
proof (induction ms arbitrary: s results)
  case Nil
  then show ?case by simp
next
  case (Cons a ms)
  show ?case
  proof (cases "find_otp U text a")
    case None
    with Cons.prems have "r \<in> set (snd (process_loop U now text ms s results))" by simp
    from Cons.IH [OF this] show ?thesis by auto
  next
    case (Some otp)
    show ?thesis
    proof (cases "otp_exists s (slice text (fst a) (snd a)) otp")
      case True
      with Some Cons.prems have "r \<in> set (snd (process_loop U now text ms s results))" by simp
      from Cons.IH [OF this] show ?thesis by auto
    next
      case False
      let ?n = "slice text (fst a) (snd a)"
      let ?r = "(?n, otp, snippet_of text a, detect_service U (snippet_of text a), ''UNKNOWN'')"
      let ?s = "save_otp s ?n otp (snippet_of text a) (detect_service U (snippet_of text a))
                  ''UNKNOWN'' now"
      from Some False Cons.prems
      have "r \<in> set (snd (process_loop U now text ms ?s (results @ [?r])))"
        by (simp add: Let_def)
      from Cons.IH [OF this] Some show ?thesis by auto
    qed
  qed
qed

subsection \<open>Sample inbox pages\<close>

definition near_text :: ustring where
  "near_text = ustr ''+8801700000000 Your code is 4821 ok''"

definition far_text :: ustring where
  "far_text = ustr ''+8801700000000 '' @ replicate 500 120 @ ustr '' 4821''"

definition code_page :: ustring where
  "code_page = ustr ''+8801700000000 code 123456''"

lemma far_window: "slice far_text 14 (14 + 400) = 32 # replicate 399 120"
  by (simp add: slice_def far_text_def ustr_def)

lemma far_no_run: "\<not> code_run_in U (slice far_text 14 (14 + 400))"
  unfolding far_window code_run_in_def
  by (rule no_digit_no_run) (simp add: list_all_iff is_digit_def)

section \<open>The claims\<close>

subsection \<open>C6: the shape of an emitted code\<close>

text \<open>
  Claim C6 says that a digit run shaped like a phone number (an optional plus and 6 to
  15 digits) is never emitted as the code. \<^verbatim>\<open>OTP_RE\<close> has nothing of the kind: it takes
  any run of 4 to 8 digits between word boundaries. On the page
  \<^verbatim>\<open>+8801700000000 code 123456\<close> the matcher emits the code \<^verbatim>\<open>123456\<close>, which is
  phone-shaped. That is so whatever the Unicode tables are: the page is ASCII.
\<close>

theorem phone_shaped_otp_counterexample:
  "\<forall>U. snd (process_incoming_otps_single_scraper U ''t''
               (Response 200 (ustr ''+8801700000000 code 123456'')) init_db)
          = [(ustr ''+8801700000000'', ustr ''123456'', ustr '' code 123456'',
              ''Service'', ''UNKNOWN'')]
        \<and> phone_shaped U (ustr ''123456'')"
proof (rule allI)
  fix U
  show "snd (process_incoming_otps_single_scraper U ''t''
               (Response 200 (ustr ''+8801700000000 code 123456'')) init_db)
          = [(ustr ''+8801700000000'', ustr ''123456'', ustr '' code 123456'',
              ''Service'', ''UNKNOWN'')]
        \<and> phone_shaped U (ustr ''123456'')"
    by code_simp
qed

text \<open>
  C6 as amended, in two parts.
  First, whatever the matcher emits: the code of an emitted tuple is a run of 4 to 8
  digits; it is phone-shaped exactly when it has 6 digits or more; and it comes from an
  occurrence \<open>m\<close> of a number in a page fetched with status 200, the number of the
  tuple being that occurrence, where it stands between two word boundaries of the
  window of 400 characters after the occurrence or of the window of 200 characters
  before it: the window is \<open>pre @ code @ post\<close>, with \<open>pre\<close> empty or ending in a
  non-word character and \<open>post\<close> empty or beginning with one.
  Second, phone-shaped runs are emitted all the same: let the text after an occurrence
  \<open>m'\<close> be \<open>gap @ code @ rest\<close>, where the code is a run of 6 to 8 digits ending
  within 400 characters, the gap holds no run of 4 to 8 digits and does not end in a
  word character, and no word character follows the code. Then the code is
  phone-shaped, and the matcher, on a store that has not recorded the pair, emits a
  tuple with this number and this code.
\<close>

theorem emitted_otp_shape:
  "(r \<in> set (snd (process_incoming_otps_single_scraper U now fetched s))
      \<longrightarrow> otp_shaped U (fst (snd r))
          \<and> (phone_shaped U (fst (snd r)) \<longleftrightarrow> 6 \<le> length (fst (snd r)))
          \<and> (\<exists>page m pre post.
                fetched = Response 200 page \<and> m \<in> set (finditer_number U 0 page)
                \<and> fst r = slice page (fst m) (snd m)
                \<and> (slice page (snd m) (snd m + 400) = pre @ fst (snd r) @ post
                    \<or> slice page (fst m - 200) (fst m) = pre @ fst (snd r) @ post)
                \<and> (pre = [] \<or> \<not> is_word_char U (last pre))
                \<and> (post = [] \<or> \<not> is_word_char U (hd post))))
   \<and> (m' \<in> set (finditer_number U 0 page') \<and> drop (snd m') page' = gap @ code @ rest
        \<and> \<not> code_run_in U gap \<and> (gap = [] \<or> \<not> is_word_char U (last gap))
        \<and> otp_shaped U code \<and> 6 \<le> length code
        \<and> (rest = [] \<or> \<not> is_word_char U (hd rest))
        \<and> length gap + length code \<le> 400
        \<and> \<not> otp_exists s' (slice page' (fst m') (snd m')) code
      \<longrightarrow> phone_shaped U code
          \<and> (slice page' (fst m') (snd m'), code)
              \<in> set (result_keys (snd (process_incoming_otps_single_scraper U now'
                                         (Response 200 page') s'))))"
proof (intro conjI impI)
  assume mem: "r \<in> set (snd (process_incoming_otps_single_scraper U now fetched s))"
  then obtain status page where f: "fetched = Response status page"
    by (cases fetched) (auto simp: process_incoming_otps_single_scraper_def)
  with mem have st: "status = 200"
    by (auto simp: process_incoming_otps_single_scraper_def split: if_splits)
  from mem f st have "r \<in> set (snd (process_loop U now page (finditer_number U 0 page) s []))"
    by (simp add: process_incoming_otps_single_scraper_def)
  from process_loop_origin [OF this]
  obtain m where m: "m \<in> set (finditer_number U 0 page)"
    and n: "fst r = slice page (fst m) (snd m)"
    and o: "find_otp U page m = Some (fst (snd r))" by auto
  from o show sh: "otp_shaped U (fst (snd r))" by (rule find_otp_shaped)
  then show "phone_shaped U (fst (snd r)) \<longleftrightarrow> 6 \<le> length (fst (snd r))"
    by (intro phone_shaped_digits) (auto simp: otp_shaped_def)
  from find_otp_bounded [OF o] obtain pre post where
    "slice page (snd m) (snd m + 400) = pre @ fst (snd r) @ post
       \<or> slice page (fst m - 200) (fst m) = pre @ fst (snd r) @ post"
    "pre = [] \<or> \<not> is_word_char U (last pre)" "post = [] \<or> \<not> is_word_char U (hd post)"
    by blast
  with f st m n
  show "\<exists>page m pre post.
          fetched = Response 200 page \<and> m \<in> set (finditer_number U 0 page)
          \<and> fst r = slice page (fst m) (snd m)
          \<and> (slice page (snd m) (snd m + 400) = pre @ fst (snd r) @ post
              \<or> slice page (fst m - 200) (fst m) = pre @ fst (snd r) @ post)
          \<and> (pre = [] \<or> \<not> is_word_char U (last pre))
          \<and> (post = [] \<or> \<not> is_word_char U (hd post))"
    by blast
next
  assume a: "m' \<in> set (finditer_number U 0 page') \<and> drop (snd m') page' = gap @ code @ rest
        \<and> \<not> code_run_in U gap \<and> (gap = [] \<or> \<not> is_word_char U (last gap))
        \<and> otp_shaped U code \<and> 6 \<le> length code
        \<and> (rest = [] \<or> \<not> is_word_char U (hd rest))
        \<and> length gap + length code \<le> 400
        \<and> \<not> otp_exists s' (slice page' (fst m') (snd m')) code"
  then have "phone_shaped U code \<longleftrightarrow> 6 \<le> length code"
    by (intro phone_shaped_digits) (auto simp: otp_shaped_def)
  with a show "phone_shaped U code" by simp
  from a have f: "find_otp U page' m' = Some code"
    by (intro find_otp_forward [where gap = gap and rest = rest]) simp_all
  from a have mem: "m' \<in> set (finditer_number U 0 page')" by simp
  from process_loop_yields [OF mem f, of s' now' "[]"] a
  show "(slice page' (fst m') (snd m'), code)
          \<in> set (result_keys (snd (process_incoming_otps_single_scraper U now'
                                     (Response 200 page') s')))"
    by (simp add: process_incoming_otps_single_scraper_def)
qed

text \<open>
  The theorem at the page \<^verbatim>\<open>+8801700000000 code 123456\<close> and the empty store: the
  tuple with the phone-shaped code \<^verbatim>\<open>123456\<close> is emitted, and the occurrence at
  \<open>(0, 14)\<close> with the gap \<^verbatim>\<open> code \<close> meets the conditions of the second part.
\<close>

theorem emitted_otp_shape_witness:
  "\<forall>U. (ustr ''+8801700000000'', ustr ''123456'', ustr '' code 123456'', ''Service'', ''UNKNOWN'')
          \<in> set (snd (process_incoming_otps_single_scraper U ''t'' (Response 200 code_page) init_db))
        \<and> otp_shaped U (ustr ''123456'')
        \<and> phone_shaped U (ustr ''123456'') \<and> 6 \<le> length (ustr ''123456'')
        \<and> (0, 14) \<in> set (finditer_number U 0 code_page)
        \<and> drop 14 code_page = ustr '' code '' @ ustr ''123456'' @ []
        \<and> \<not> code_run_in U (ustr '' code '') \<and> \<not> is_word_char U (last (ustr '' code ''))
        \<and> length (ustr '' code '') + length (ustr ''123456'') \<le> 400
        \<and> \<not> otp_exists init_db (slice code_page 0 14) (ustr ''123456'')
        \<and> (slice code_page 0 14, ustr ''123456'')
            \<in> set (result_keys (snd (process_incoming_otps_single_scraper U ''t''
                                       (Response 200 code_page) init_db)))"
proof (rule allI)
  fix U
  let ?r = "(ustr ''+8801700000000'', ustr ''123456'', ustr '' code 123456'', ''Service'', ''UNKNOWN'')"
  have h0: "?r \<in> set (snd (process_incoming_otps_single_scraper U ''t''
                            (Response 200 code_page) init_db))"
    by code_simp
  have h1: "(0, 14) \<in> set (finditer_number U 0 code_page)" by code_simp
  have h2: "drop (snd (0 :: nat, 14 :: nat)) code_page = ustr '' code '' @ ustr ''123456'' @ []"
    by (simp add: code_page_def ustr_def)
  have h3: "\<not> code_run_in U (ustr '' code '')" by code_simp
  have h4: "\<not> is_word_char U (last (ustr '' code ''))" by code_simp
  have h5: "otp_shaped U (ustr ''123456'')" by code_simp
  have h6: "6 \<le> length (ustr ''123456'')" by (simp add: ustr_def)
  have h7: "length (ustr '' code '') + length (ustr ''123456'') \<le> 400" by (simp add: ustr_def)
  have h8: "\<not> otp_exists init_db (slice code_page (fst (0 :: nat, 14 :: nat))
                                     (snd (0 :: nat, 14 :: nat))) (ustr ''123456'')"
    by (simp add: otp_exists_def init_db_def)
  from emitted_otp_shape [of ?r U "''t''" "Response 200 code_page" init_db "(0, 14)" code_page
      "ustr '' code ''" "ustr ''123456''" "[]" init_db "''t''"]
    h0 h1 h2 h3 h4 h5 h6 h7 h8
  show "?r \<in> set (snd (process_incoming_otps_single_scraper U ''t'' (Response 200 code_page) init_db))
        \<and> otp_shaped U (ustr ''123456'')
        \<and> phone_shaped U (ustr ''123456'') \<and> 6 \<le> length (ustr ''123456'')
        \<and> (0, 14) \<in> set (finditer_number U 0 code_page)
        \<and> drop 14 code_page = ustr '' code '' @ ustr ''123456'' @ []
        \<and> \<not> code_run_in U (ustr '' code '') \<and> \<not> is_word_char U (last (ustr '' code ''))
        \<and> length (ustr '' code '') + length (ustr ''123456'') \<le> 400
        \<and> \<not> otp_exists init_db (slice code_page 0 14) (ustr ''123456'')
        \<and> (slice code_page 0 14, ustr ''123456'')
            \<in> set (result_keys (snd (process_incoming_otps_single_scraper U ''t''
                                       (Response 200 code_page) init_db)))"
    by simp
qed

subsection \<open>C7: the window policy\<close>

text \<open>
  Claim C7, first half: let \<open>m\<close> be an occurrence of a number in the page, and let the
  text after it be \<open>gap @ code @ rest\<close>, where the gap holds no run of 4 to 8 digits and
  does not end in a word character, the code is 4 to 8 digits ending within 400
  characters, and no word character follows it. Then the matcher, on a store that has
  not recorded the pair, yields a tuple with this number and this code.
  Second half: when neither the 400 characters after the occurrence nor the 200
  characters before it hold a run of 4 to 8 digits, the occurrence yields nothing:
  no code is found, and its turn of the loop leaves the store and the results as they
  were. The runs are those of the window as cut out of the page.
\<close>

theorem matcher_window_policy:
  "(m \<in> set (finditer_number U 0 text) \<and> drop (snd m) text = gap @ code @ rest
      \<and> \<not> code_run_in U gap \<and> (gap = [] \<or> \<not> is_word_char U (last gap))
      \<and> otp_shaped U code \<and> (rest = [] \<or> \<not> is_word_char U (hd rest))
      \<and> length gap + length code \<le> 400
      \<and> \<not> otp_exists s (slice text (fst m) (snd m)) code
    \<longrightarrow> (slice text (fst m) (snd m), code)
          \<in> set (result_keys (snd (process_incoming_otps_single_scraper U now (Response 200 text) s))))
   \<and> (\<not> code_run_in U (slice text' (snd m') (snd m' + 400))
      \<and> \<not> code_run_in U (slice text' (fst m' - 200) (fst m'))
    \<longrightarrow> find_otp U text' m' = None
        \<and> process_loop U now' text' (m' # ms) s' results = process_loop U now' text' ms s' results)"
proof (intro conjI impI)
  assume a: "m \<in> set (finditer_number U 0 text) \<and> drop (snd m) text = gap @ code @ rest
      \<and> \<not> code_run_in U gap \<and> (gap = [] \<or> \<not> is_word_char U (last gap))
      \<and> otp_shaped U code \<and> (rest = [] \<or> \<not> is_word_char U (hd rest))
      \<and> length gap + length code \<le> 400
      \<and> \<not> otp_exists s (slice text (fst m) (snd m)) code"
  then have f: "find_otp U text m = Some code"
    by (intro find_otp_forward [where gap = gap and rest = rest]) simp_all
  from a have mem: "m \<in> set (finditer_number U 0 text)" by simp
  from process_loop_yields [OF mem f, of s now "[]"] a
  show "(slice text (fst m) (snd m), code)
          \<in> set (result_keys (snd (process_incoming_otps_single_scraper U now (Response 200 text) s)))"
    by (simp add: process_incoming_otps_single_scraper_def)
next
  assume b: "\<not> code_run_in U (slice text' (snd m') (snd m' + 400))
      \<and> \<not> code_run_in U (slice text' (fst m' - 200) (fst m'))"
  then show n: "find_otp U text' m' = None" by (intro find_otp_none) simp_all
  then show "process_loop U now' text' (m' # ms) s' results = process_loop U now' text' ms s' results"
    by simp
qed

theorem matcher_window_policy_witness:
  "\<forall>U. (0, 14) \<in> set (finditer_number U 0 near_text)
   \<and> drop (snd (0 :: nat, 14 :: nat)) near_text
       = ustr '' Your code is '' @ ustr ''4821'' @ ustr '' ok''
   \<and> \<not> code_run_in U (ustr '' Your code is '')
   \<and> \<not> is_word_char U (last (ustr '' Your code is ''))
   \<and> otp_shaped U (ustr ''4821'') \<and> \<not> is_word_char U (hd (ustr '' ok''))
   \<and> length (ustr '' Your code is '') + length (ustr ''4821'') \<le> 400
   \<and> \<not> otp_exists init_db (slice near_text 0 14) (ustr ''4821'')
   \<and> (ustr ''+8801700000000'', ustr ''4821'')
        \<in> set (result_keys (snd (process_incoming_otps_single_scraper U ''t''
                                   (Response 200 near_text) init_db)))
   \<and> \<not> code_run_in U (slice far_text 14 (14 + 400))
   \<and> \<not> code_run_in U (slice far_text (0 - 200) 0)
   \<and> find_otp U far_text (0, 14) = None
   \<and> process_loop U ''t'' far_text [(0, 14)] init_db []
       = process_loop U ''t'' far_text [] init_db []"
proof (rule allI)
  fix U
  have h1: "(0, 14) \<in> set (finditer_number U 0 near_text)" by code_simp
  have h2: "drop (snd (0 :: nat, 14 :: nat)) near_text
              = ustr '' Your code is '' @ ustr ''4821'' @ ustr '' ok''"
    by (simp add: near_text_def ustr_def)
  have h3: "\<not> code_run_in U (ustr '' Your code is '')" by code_simp
  have h4: "\<not> is_word_char U (last (ustr '' Your code is ''))" by code_simp
  have h5: "otp_shaped U (ustr ''4821'')" by code_simp
  have h6: "\<not> is_word_char U (hd (ustr '' ok''))" by code_simp
  have h7: "length (ustr '' Your code is '') + length (ustr ''4821'') \<le> 400"
    by (simp add: ustr_def)
  have h8: "\<not> otp_exists init_db (slice near_text (fst (0 :: nat, 14 :: nat))
                                     (snd (0 :: nat, 14 :: nat))) (ustr ''4821'')"
    by (simp add: otp_exists_def init_db_def)
  have n: "slice near_text (fst (0 :: nat, 14 :: nat)) (snd (0 :: nat, 14 :: nat))
             = ustr ''+8801700000000''"
    by (simp add: slice_def near_text_def ustr_def)
  have g1: "\<not> code_run_in U (slice far_text (snd (0 :: nat, 14 :: nat))
                                (snd (0 :: nat, 14 :: nat) + 400))"
    using far_no_run by simp
  have g2: "\<not> code_run_in U (slice far_text (fst (0 :: nat, 14 :: nat) - 200)
                                (fst (0 :: nat, 14 :: nat)))"
    by (simp add: slice_def code_run_in_def)
  from matcher_window_policy [of "(0, 14)" U near_text "ustr '' Your code is ''" "ustr ''4821''"
      "ustr '' ok''" init_db "''t''" far_text "(0, 14)" "''t''" "[]" init_db "[]"]
    h1 h2 h3 h4 h5 h6 h7 h8 g1 g2 n
  show "(0, 14) \<in> set (finditer_number U 0 near_text)
   \<and> drop (snd (0 :: nat, 14 :: nat)) near_text
       = ustr '' Your code is '' @ ustr ''4821'' @ ustr '' ok''
   \<and> \<not> code_run_in U (ustr '' Your code is '')
   \<and> \<not> is_word_char U (last (ustr '' Your code is ''))
   \<and> otp_shaped U (ustr ''4821'') \<and> \<not> is_word_char U (hd (ustr '' ok''))
   \<and> length (ustr '' Your code is '') + length (ustr ''4821'') \<le> 400
   \<and> \<not> otp_exists init_db (slice near_text 0 14) (ustr ''4821'')
   \<and> (ustr ''+8801700000000'', ustr ''4821'')
        \<in> set (result_keys (snd (process_incoming_otps_single_scraper U ''t''
                                   (Response 200 near_text) init_db)))
   \<and> \<not> code_run_in U (slice far_text 14 (14 + 400))
   \<and> \<not> code_run_in U (slice far_text (0 - 200) 0)
   \<and> find_otp U far_text (0, 14) = None
   \<and> process_loop U ''t'' far_text [(0, 14)] init_db []
       = process_loop U ''t'' far_text [] init_db []"
    by simp
qed

subsection \<open>C1: one history record for each pair of number and code\<close>

text \<open>A sequence of turns of the poll loop, each with its clock reading and its page.\<close>

fun poll_cycles :: "unicode \<Rightarrow> config \<Rightarrow> (timestamp \<times> fetch_result) list \<Rightarrow> db \<Rightarrow> db" where
  "poll_cycles U cfg [] s = s"
| "poll_cycles U cfg (c # cs) s = poll_cycles U cfg cs (fst (otp_poll_cycle U cfg (fst c) (snd c) s))"

definition sample_config :: config where
  "sample_config = \<lparr>EARN_PER_SMS = 1, MIN_WITHDRAWAL = 250, ADMIN_ID = 1, GROUP_ID = 0\<rparr>"

lemma process_loop_distinct:
  "distinct (otp_keys s) \<Longrightarrow> distinct (otp_keys (fst (process_loop U now text ms s results)))"
proof (induction ms arbitrary: s results)
  case Nil
  then show ?case by simp
next
  case (Cons m ms)
  show ?case
  proof (cases "find_otp U text m")
    case None
    then show ?thesis using Cons by simp
  next
    case (Some otp)
    show ?thesis
    proof (cases "otp_exists s (slice text (fst m) (snd m)) otp")
      case True
      with Some show ?thesis using Cons by simp
    next
      case False
      then have "distinct (otp_keys (save_otp s (slice text (fst m) (snd m)) otp (snippet_of text m)
                   (detect_service U (snippet_of text m)) ''UNKNOWN'' now))"
        using Cons.prems by (simp add: otp_keys_save_otp otp_exists_keys)
      from Cons.IH [OF this] Some False show ?thesis by (simp add: Let_def)
    qed
  qed
qed

lemma process_loop_results_distinct:
  "distinct (result_keys results) \<Longrightarrow> set (result_keys results) \<subseteq> set (otp_keys s) \<Longrightarrow>
   distinct (result_keys (snd (process_loop U now text ms s results)))"
proof (induction ms arbitrary: s results)
  case Nil
  then show ?case by simp
next
  case (Cons m ms)
  show ?case
  proof (cases "find_otp U text m")
    case None
    then show ?thesis using Cons by simp
  next
    case (Some otp)
    show ?thesis
    proof (cases "otp_exists s (slice text (fst m) (snd m)) otp")
      case True
      with Some show ?thesis using Cons by simp
    next
      case False
      let ?n = "slice text (fst m) (snd m)"
      let ?r = "(?n, otp, snippet_of text m, detect_service U (snippet_of text m), ''UNKNOWN'')"
      let ?s = "save_otp s ?n otp (snippet_of text m) (detect_service U (snippet_of text m)) ''UNKNOWN'' now"
      have d: "distinct (result_keys (results @ [?r]))"
        using Cons.prems False by (auto simp: result_keys_def otp_exists_keys)
      have sub: "set (result_keys (results @ [?r])) \<subseteq> set (otp_keys ?s)"
        using Cons.prems(2) by (auto simp: result_keys_def otp_keys_save_otp)
      from Cons.IH [OF d sub] Some False show ?thesis by (simp add: Let_def)
    qed
  qed
qed

lemma otps_credit_user: "otps (credit_user s u a) = otps s"
  by (simp add: credit_user_def Let_def)

lemma otps_credit_loop: "otps (fst (credit_loop cfg rs s out)) = otps s"
  by (induction rs arbitrary: s out) (auto simp: Let_def otps_credit_user split: option.splits)

lemma otp_keys_credit_loop: "otp_keys (fst (credit_loop cfg rs s out)) = otp_keys s"
  by (simp add: otp_keys_def otps_credit_loop)

lemma process_distinct:
  "distinct (otp_keys s) \<Longrightarrow>
   distinct (otp_keys (fst (process_incoming_otps_single_scraper U now fetched s)))"
  by (auto simp: process_incoming_otps_single_scraper_def intro: process_loop_distinct
        split: fetch_result.splits)

lemma otp_poll_cycle_alt:
  "otp_poll_cycle U cfg now fetched s =
     credit_loop cfg (snd (process_incoming_otps_single_scraper U now fetched s))
       (fst (process_incoming_otps_single_scraper U now fetched s)) []"
  by (simp add: otp_poll_cycle_def split: prod.splits)

lemma otp_poll_cycle_distinct:
  "distinct (otp_keys s) \<Longrightarrow> distinct (otp_keys (fst (otp_poll_cycle U cfg now fetched s)))"
  by (simp add: otp_poll_cycle_alt otp_keys_credit_loop process_distinct)

lemma poll_cycles_distinct:
  "distinct (otp_keys s) \<Longrightarrow> distinct (otp_keys (poll_cycles U cfg calls s))"
  by (induction calls arbitrary: s) (auto intro: otp_poll_cycle_distinct)

lemma distinct_count_le_1: "distinct (map f xs) \<Longrightarrow> length (filter (\<lambda>x. f x = k) xs) \<le> 1"
  by (induction xs) (auto simp: filter_empty_conv image_iff)

text \<open>
  Claim C1: from a history that holds no pair of number and code twice (the empty one
  of a fresh database, for one), any sequence of poll cycles, whatever pages they are
  fed, leaves at most one record for each pair; and the result list of one call of the
  matcher, on any store, holds each pair at most once.
\<close>

theorem otp_history_unique:
  assumes "distinct (otp_keys s)"
  shows "length (filter (\<lambda>r. o_number r = number \<and> o_otp r = otp) (otps (poll_cycles U cfg calls s))) \<le> 1
         \<and> distinct (result_keys (snd (process_incoming_otps_single_scraper U now fetched s')))"
proof
  have "distinct (map (\<lambda>r. (o_number r, o_otp r)) (otps (poll_cycles U cfg calls s)))"
    using poll_cycles_distinct [OF assms, of U cfg calls] by (simp add: otp_keys_def)
  from distinct_count_le_1 [OF this, of "(number, otp)"]
  show "length (filter (\<lambda>r. o_number r = number \<and> o_otp r = otp) (otps (poll_cycles U cfg calls s))) \<le> 1"
    by simp
  show "distinct (result_keys (snd (process_incoming_otps_single_scraper U now fetched s')))"
    by (auto simp: process_incoming_otps_single_scraper_def result_keys_def
          intro: process_loop_results_distinct [unfolded result_keys_def, simplified]
          split: fetch_result.splits)
qed

theorem otp_history_unique_witness:
  "\<forall>U. distinct (otp_keys init_db)
   \<and> length (filter (\<lambda>r. o_number r = ustr ''+8801700000000'' \<and> o_otp r = ustr ''4821'')
         (otps (poll_cycles U sample_config
                  [(''t1'', Response 200 near_text), (''t2'', Response 200 near_text)] init_db))) \<le> 1
   \<and> distinct (result_keys (snd (process_incoming_otps_single_scraper U ''t1''
                                  (Response 200 near_text) init_db)))
   \<and> length (otps (poll_cycles U sample_config
                  [(''t1'', Response 200 near_text), (''t2'', Response 200 near_text)] init_db)) = 1"
proof (rule allI)
  fix U
  have h: "distinct (otp_keys init_db)" by (simp add: otp_keys_def init_db_def)
  have one: "length (otps (poll_cycles U sample_config
                  [(''t1'', Response 200 near_text), (''t2'', Response 200 near_text)] init_db)) = 1"
    by code_simp
  from otp_history_unique [OF h, where number = "ustr ''+8801700000000''" and otp = "ustr ''4821''"
      and U = U and cfg = sample_config
      and calls = "[(''t1'', Response 200 near_text), (''t2'', Response 200 near_text)]"
      and now = "''t1''" and fetched = "Response 200 near_text" and s' = init_db] h one
  show "distinct (otp_keys init_db)
   \<and> length (filter (\<lambda>r. o_number r = ustr ''+8801700000000'' \<and> o_otp r = ustr ''4821'')
         (otps (poll_cycles U sample_config
                  [(''t1'', Response 200 near_text), (''t2'', Response 200 near_text)] init_db))) \<le> 1
   \<and> distinct (result_keys (snd (process_incoming_otps_single_scraper U ''t1''
                                  (Response 200 near_text) init_db)))
   \<and> length (otps (poll_cycles U sample_config
                  [(''t1'', Response 200 near_text), (''t2'', Response 200 near_text)] init_db)) = 1"
    by simp
qed

subsection \<open>C8 and C9: inventory sync\<close>

text \<open>\<open>present s number\<close>: the inventory has a row for the number.\<close>

definition present :: "db \<Rightarrow> ustring \<Rightarrow> bool" where
  "present s number = list_ex (\<lambda>r. n_number r = number) (available_numbers s)"

lemma present_add:
  "present (add_available_number s n c now) m \<longleftrightarrow> present s m \<or> m = n"
  by (auto simp: present_def add_available_number_def list_ex_iff)

lemma add_noop: "present s n \<Longrightarrow> add_available_number s n c now = s"
  by (simp add: present_def add_available_number_def)

lemma sync_loop_count: "fst (sync_loop now nums s k) = k + length nums"
  by (induction nums arbitrary: s k) auto

lemma sync_loop_noop: "list_all (present s) nums \<Longrightarrow> snd (sync_loop now nums s k) = s"
  by (induction nums arbitrary: s k) (auto simp: add_noop)

lemma sync_loop_present:
  "present (snd (sync_loop now nums s k)) n \<longleftrightarrow> present s n \<or> n \<in> set nums"
  by (induction nums arbitrary: s k) (auto simp: present_add)

lemma sync_loop_others:
  "users (snd (sync_loop now nums s k)) = users s
   \<and> earnings (snd (sync_loop now nums s k)) = earnings s
   \<and> otps (snd (sync_loop now nums s k)) = otps s
   \<and> withdrawals (snd (sync_loop now nums s k)) = withdrawals s"
  by (induction nums arbitrary: s k) (auto simp: add_available_number_def)

lemma sync_loop_rows:
  "\<exists>new. available_numbers (snd (sync_loop now nums s k)) = available_numbers s @ new
         \<and> list_all (\<lambda>r. n_assigned_to r = None \<and> \<not> present s (n_number r)) new"
proof (induction nums arbitrary: s k)
  case Nil
  then show ?case by simp
next
  case (Cons n nums)
  let ?s1 = "add_available_number s n ''UNKNOWN'' now"
  from Cons.IH [of ?s1 "k + 1"] obtain new where
    a: "available_numbers (snd (sync_loop now nums ?s1 (k + 1))) = available_numbers ?s1 @ new"
    and b: "list_all (\<lambda>r. n_assigned_to r = None \<and> \<not> present ?s1 (n_number r)) new" by blast
  from b have b': "list_all (\<lambda>r. n_assigned_to r = None \<and> \<not> present s (n_number r)) new"
    by (simp add: list_all_iff present_add)
  show ?case
  proof (cases "present s n")
    case True
    with a b' show ?thesis by (simp add: add_noop)
  next
    case False
    then have "available_numbers ?s1 = available_numbers s @
        [\<lparr>n_number = n, n_country = ''UNKNOWN'', n_assigned_to = None, n_added_at = now\<rparr>]"
      by (simp add: present_def add_available_number_def)
    with a b' False show ?thesis by simp
  qed
qed

lemma sync_twice:
  "snd (sync_numbers_from_ivasms U now' fetched (snd (sync_numbers_from_ivasms U now fetched s)))
     = snd (sync_numbers_from_ivasms U now fetched s)"
proof (cases fetched)
  case FetchError
  then show ?thesis by (simp add: sync_numbers_from_ivasms_def)
next
  case (Response status page)
  let ?nums = "py_set (findall_number U page)"
  let ?s1 = "snd (sync_loop now ?nums s 0)"
  have "list_all (present ?s1) ?nums"
    by (simp add: list_all_iff sync_loop_present)
  then have "snd (sync_loop now' ?nums ?s1 0) = ?s1" by (rule sync_loop_noop)
  with Response show ?thesis by (simp add: sync_numbers_from_ivasms_def)
qed

lemma sync_count:
  "fst (sync_numbers_from_ivasms U now (Response status page) s)
     = length (py_set (findall_number U page))"
  by (simp add: sync_numbers_from_ivasms_def sync_loop_count)

lemma py_set_distinct: "distinct (py_set found)"
  by (simp add: py_set_def)

lemma py_set_set: "set (py_set found) = set found"
  by (simp add: py_set_def)

lemma py_set_length: "length (py_set found) = card (set found)"
proof -
  have "length (py_set found) = card (set (py_set found))"
    by (rule distinct_card [OF py_set_distinct, symmetric])
  then show ?thesis by (simp only: py_set_set)
qed

lemma sync_loop_inserted:
  "distinct nums \<Longrightarrow>
   length (available_numbers (snd (sync_loop now nums s k)))
     = length (available_numbers s) + length (filter (\<lambda>n. \<not> present s n) nums)"
proof (induction nums arbitrary: s k)
  case Nil
  then show ?case by simp
next
  case (Cons n nums)
  let ?s1 = "add_available_number s n ''UNKNOWN'' now"
  from Cons.prems have d: "distinct nums" and nn: "n \<notin> set nums" by simp_all
  have same: "filter (\<lambda>m. \<not> present ?s1 m) nums = filter (\<lambda>m. \<not> present s m) nums"
    using nn by (intro filter_cong) (auto simp: present_add)
  have ih: "length (available_numbers (snd (sync_loop now nums ?s1 (k + 1))))
              = length (available_numbers ?s1) + length (filter (\<lambda>m. \<not> present s m) nums)"
    using Cons.IH [OF d, of ?s1 "k + 1"] by (simp only: same)
  show ?case
  proof (cases "present s n")
    case True
    with ih show ?thesis by (simp add: add_noop)
  next
    case False
    then have "length (available_numbers ?s1) = Suc (length (available_numbers s))"
      by (simp add: present_def add_available_number_def)
    with ih False show ?thesis by simp
  qed
qed

text \<open>
  Claim C8: a second sync on the same page, whenever it runs, leaves the store exactly
  as the first sync left it. The first sync keeps every row the inventory had, in
  place and unchanged, and appends only unowned rows for numbers that were absent; the
  other four tables are not touched.
\<close>

theorem sync_idempotent:
  "snd (sync_numbers_from_ivasms U now' fetched (snd (sync_numbers_from_ivasms U now fetched s)))
     = snd (sync_numbers_from_ivasms U now fetched s)
   \<and> take (length (available_numbers s))
        (available_numbers (snd (sync_numbers_from_ivasms U now fetched s))) = available_numbers s
   \<and> list_all (\<lambda>r. n_assigned_to r = None \<and> \<not> present s (n_number r))
        (drop (length (available_numbers s))
           (available_numbers (snd (sync_numbers_from_ivasms U now fetched s))))
   \<and> users (snd (sync_numbers_from_ivasms U now fetched s)) = users s
   \<and> earnings (snd (sync_numbers_from_ivasms U now fetched s)) = earnings s
   \<and> otps (snd (sync_numbers_from_ivasms U now fetched s)) = otps s
   \<and> withdrawals (snd (sync_numbers_from_ivasms U now fetched s)) = withdrawals s"
proof (cases fetched)
  case FetchError
  then show ?thesis by (simp add: sync_numbers_from_ivasms_def)
next
  case (Response status page)
  let ?nums = "py_set (findall_number U page)"
  let ?s1 = "snd (sync_loop now ?nums s 0)"
  have s1: "snd (sync_numbers_from_ivasms U now fetched s) = ?s1"
    using Response by (simp add: sync_numbers_from_ivasms_def)
  from sync_loop_rows [of now ?nums s 0] obtain new where
    a: "available_numbers ?s1 = available_numbers s @ new"
    and b: "list_all (\<lambda>r. n_assigned_to r = None \<and> \<not> present s (n_number r)) new" by blast
  have "snd (sync_numbers_from_ivasms U now' fetched ?s1) = ?s1"
    using sync_twice [of U now' fetched now s] by (simp only: s1)
  then show ?thesis
    unfolding s1 using a b sync_loop_others [of now ?nums s 0] by simp
qed

text \<open>
  Claim C9 says that sync returns the number of rows it inserted, so 0 on a second
  sync of the same page. The loop adds 1 to \<^verbatim>\<open>added\<close> for every distinct match, whether
  \<^verbatim>\<open>INSERT OR IGNORE\<close> inserted a row or not. On the page
  \<^verbatim>\<open>1555000111 +8801700000000\<close> a second sync inserts nothing (the store is as the
  first sync left it) and returns 2, not 0.
\<close>

theorem second_sync_count_counterexample:
  "\<forall>U. fst (sync_numbers_from_ivasms U ''t2'' (Response 200 (ustr ''1555000111 +8801700000000''))
          (snd (sync_numbers_from_ivasms U ''t1''
                  (Response 200 (ustr ''1555000111 +8801700000000'')) init_db)))
     = 2
   \<and> snd (sync_numbers_from_ivasms U ''t2'' (Response 200 (ustr ''1555000111 +8801700000000''))
          (snd (sync_numbers_from_ivasms U ''t1''
                  (Response 200 (ustr ''1555000111 +8801700000000'')) init_db)))
     = snd (sync_numbers_from_ivasms U ''t1''
              (Response 200 (ustr ''1555000111 +8801700000000'')) init_db)"
proof (rule allI)
  fix U
  have "findall_number U (ustr ''1555000111 +8801700000000'')
          = [ustr ''1555000111'', ustr ''+8801700000000'']"
    by code_simp
  then have "fst (sync_numbers_from_ivasms U now
                    (Response 200 (ustr ''1555000111 +8801700000000'')) s) = 2"
    for now s
    by (simp add: sync_count py_set_def ustr_def)
  with sync_twice
  show "fst (sync_numbers_from_ivasms U ''t2'' (Response 200 (ustr ''1555000111 +8801700000000''))
          (snd (sync_numbers_from_ivasms U ''t1''
                  (Response 200 (ustr ''1555000111 +8801700000000'')) init_db)))
     = 2
   \<and> snd (sync_numbers_from_ivasms U ''t2'' (Response 200 (ustr ''1555000111 +8801700000000''))
          (snd (sync_numbers_from_ivasms U ''t1''
                  (Response 200 (ustr ''1555000111 +8801700000000'')) init_db)))
     = snd (sync_numbers_from_ivasms U ''t1''
              (Response 200 (ustr ''1555000111 +8801700000000'')) init_db)"
    by simp
qed

text \<open>
  C9 as amended: sync returns the number of numbers it touched, present before or
  created by the call. When the page cannot be fetched the count is 0. Otherwise the
  count is the number of distinct phone-number-shaped substrings of the page, whatever
  the inventory holds; each of them is in the inventory after the call; the rows
  inserted are as many as those of them that were absent before; and a second sync on
  the same text returns the same count.
\<close>

theorem sync_returns_touched_count:
  "fst (sync_numbers_from_ivasms U now FetchError s) = 0
   \<and> fst (sync_numbers_from_ivasms U now (Response status page) s)
       = card (set (findall_number U page))
   \<and> list_all (present (snd (sync_numbers_from_ivasms U now (Response status page) s)))
        (findall_number U page)
   \<and> length (available_numbers (snd (sync_numbers_from_ivasms U now (Response status page) s)))
       = length (available_numbers s)
         + length (filter (\<lambda>n. \<not> present s n) (py_set (findall_number U page)))
   \<and> fst (sync_numbers_from_ivasms U now' (Response status' page)
             (snd (sync_numbers_from_ivasms U now (Response status page) s)))
       = fst (sync_numbers_from_ivasms U now (Response status page) s)"
proof (intro conjI)
  let ?found = "findall_number U page"
  have s1: "snd (sync_numbers_from_ivasms U now (Response status page) s)
              = snd (sync_loop now (py_set ?found) s 0)"
    by (simp add: sync_numbers_from_ivasms_def)
  show "fst (sync_numbers_from_ivasms U now FetchError s) = 0"
    by (simp add: sync_numbers_from_ivasms_def)
  show "fst (sync_numbers_from_ivasms U now (Response status page) s) = card (set ?found)"
    by (simp only: sync_count py_set_length)
  show "list_all (present (snd (sync_numbers_from_ivasms U now (Response status page) s))) ?found"
    unfolding s1 by (simp add: list_all_iff sync_loop_present py_set_set)
  show "length (available_numbers (snd (sync_numbers_from_ivasms U now (Response status page) s)))
       = length (available_numbers s) + length (filter (\<lambda>n. \<not> present s n) (py_set ?found))"
    unfolding s1 by (rule sync_loop_inserted [OF py_set_distinct])
  show "fst (sync_numbers_from_ivasms U now' (Response status' page)
             (snd (sync_numbers_from_ivasms U now (Response status page) s)))
       = fst (sync_numbers_from_ivasms U now (Response status page) s)"
    by (simp only: sync_count)
qed

subsection \<open>C10: registering a user again\<close>

text \<open>A store with one registered user, number 7, who has earned 300.\<close>

definition funded_db :: db where
  "funded_db = credit_user (ensure_user init_db 7 (Some ''alice'') ''t0'') 7 300"

lemma funded_db_eq:
  "funded_db = \<lparr>users = [\<lparr>u_user_id = 7, u_username = Some ''alice'', u_created_at = ''t0''\<rparr>],
                earnings = [\<lparr>e_user_id = 7, e_balance = 300\<rparr>],
                available_numbers = [], otps = [], withdrawals = []\<rparr>"
  by (simp add: funded_db_def credit_user_def ensure_user_def init_db_def Let_def)

lemma find_append_one:
  "find P (xs @ [x]) = (case find P xs of Some y \<Rightarrow> Some y | None \<Rightarrow> if P x then Some x else None)"
  by (induction xs) auto

lemma find_None_list_ex: "find P xs = None \<longleftrightarrow> \<not> list_ex P xs"
  by (induction xs) auto

lemma find_map_keep:
  "(\<And>x. P (f x) = P x) \<Longrightarrow> find P (map f xs) = map_option f (find P xs)"
  by (induction xs) auto

lemma filter_none: "\<not> list_ex P xs \<Longrightarrow> filter P xs = []"
  by (induction xs) auto

lemma earnings_ensure_user:
  "earnings (ensure_user s uid uname now) =
     (if list_ex (\<lambda>r. e_user_id r = uid) (earnings s) then earnings s
      else earnings s @ [\<lparr>e_user_id = uid, e_balance = 0\<rparr>])"
  by (simp add: ensure_user_def Let_def)

lemma get_balance_ensure_user:
  "get_balance (ensure_user s uid uname now) v = get_balance s v"
proof (cases "find (\<lambda>r. e_user_id r = v) (earnings s)")
  case None
  then show ?thesis
    by (simp add: get_balance_def earnings_ensure_user find_append_one)
next
  case (Some row)
  then show ?thesis
    by (simp add: get_balance_def earnings_ensure_user find_append_one)
qed

text \<open>
  Claim C10: when the user id has a row in \<^verbatim>\<open>users\<close>, \<^verbatim>\<open>ensure_user\<close> with any username
  leaves the whole \<^verbatim>\<open>users\<close> table (so the stored username and creation time) as it
  was, the balance as it was, and every row of \<^verbatim>\<open>earnings\<close> in place. When the id has
  a row in neither table, it appends one \<^verbatim>\<open>users\<close> row and one \<^verbatim>\<open>earnings\<close> row with
  balance 0, after which each table holds exactly one row of that id. The other
  tables are never touched.
\<close>

theorem ensure_user_keeps:
  "(list_ex (\<lambda>r. u_user_id r = uid) (users s) \<longrightarrow>
      users (ensure_user s uid uname now) = users s
    \<and> get_balance (ensure_user s uid uname now) uid = get_balance s uid
    \<and> take (length (earnings s)) (earnings (ensure_user s uid uname now)) = earnings s)
   \<and> (\<not> list_ex (\<lambda>r. u_user_id r = uid) (users s) \<and> \<not> list_ex (\<lambda>r. e_user_id r = uid) (earnings s) \<longrightarrow>
      users (ensure_user s uid uname now)
        = users s @ [\<lparr>u_user_id = uid, u_username = uname, u_created_at = now\<rparr>]
    \<and> earnings (ensure_user s uid uname now) = earnings s @ [\<lparr>e_user_id = uid, e_balance = 0\<rparr>]
    \<and> length (filter (\<lambda>r. u_user_id r = uid) (users (ensure_user s uid uname now))) = 1
    \<and> length (filter (\<lambda>r. e_user_id r = uid) (earnings (ensure_user s uid uname now))) = 1
    \<and> get_balance (ensure_user s uid uname now) uid = 0)
   \<and> available_numbers (ensure_user s uid uname now) = available_numbers s
   \<and> otps (ensure_user s uid uname now) = otps s
   \<and> withdrawals (ensure_user s uid uname now) = withdrawals s"
proof (intro conjI impI)
  assume "list_ex (\<lambda>r. u_user_id r = uid) (users s)"
  then show "users (ensure_user s uid uname now) = users s"
    by (simp add: ensure_user_def Let_def)
  show "take (length (earnings s)) (earnings (ensure_user s uid uname now)) = earnings s"
    by (simp add: ensure_user_def Let_def)
next
  assume a: "\<not> list_ex (\<lambda>r. u_user_id r = uid) (users s) \<and> \<not> list_ex (\<lambda>r. e_user_id r = uid) (earnings s)"
  then show "users (ensure_user s uid uname now)
        = users s @ [\<lparr>u_user_id = uid, u_username = uname, u_created_at = now\<rparr>]"
    and "earnings (ensure_user s uid uname now) = earnings s @ [\<lparr>e_user_id = uid, e_balance = 0\<rparr>]"
    and "length (filter (\<lambda>r. u_user_id r = uid) (users (ensure_user s uid uname now))) = 1"
    and "length (filter (\<lambda>r. e_user_id r = uid) (earnings (ensure_user s uid uname now))) = 1"
    by (simp_all add: ensure_user_def Let_def filter_none)
  from a have "get_balance s uid = 0"
    by (simp add: get_balance_def find_None_list_ex [symmetric])
  then show "get_balance (ensure_user s uid uname now) uid = 0"
    by (simp add: get_balance_ensure_user)
qed (simp_all add: get_balance_ensure_user, simp_all add: ensure_user_def Let_def)

theorem ensure_user_keeps_witness:
  "list_ex (\<lambda>r. u_user_id r = 7) (users funded_db)
   \<and> users (ensure_user funded_db 7 (Some ''bob'') ''t9'') = users funded_db
   \<and> get_balance (ensure_user funded_db 7 (Some ''bob'') ''t9'') 7 = 300
   \<and> \<not> list_ex (\<lambda>r. u_user_id r = 8) (users funded_db)
   \<and> \<not> list_ex (\<lambda>r. e_user_id r = 8) (earnings funded_db)
   \<and> get_balance (ensure_user funded_db 8 None ''t9'') 8 = 0
   \<and> length (filter (\<lambda>r. u_user_id r = 8) (users (ensure_user funded_db 8 None ''t9''))) = 1"
proof -
  have h1: "list_ex (\<lambda>r. u_user_id r = 7) (users funded_db)" by (simp add: funded_db_eq)
  have h2: "\<not> list_ex (\<lambda>r. u_user_id r = 8) (users funded_db)
            \<and> \<not> list_ex (\<lambda>r. e_user_id r = 8) (earnings funded_db)" by (simp add: funded_db_eq)
  have b: "get_balance funded_db 7 = 300" by (simp add: funded_db_eq get_balance_def)
  from ensure_user_keeps [of 7 funded_db "Some ''bob''" "''t9''"]
       ensure_user_keeps [of 8 funded_db None "''t9''"] h1 h2 b
  show ?thesis by (simp add: filter_none)
qed

subsection \<open>C4: approving a withdrawal\<close>

text \<open>
  \<open>pending_request s wid\<close> is the row that \<^verbatim>\<open>approve_withdrawal\<close> selects: the pending
  request of that id. \<open>debit_rows\<close> and \<open>approve_rows\<close> are its two \<^verbatim>\<open>UPDATE\<close>s. The
  sample store has user 7 with a balance of 300 and two pending requests, of 250 and
  of 100.
\<close>

definition pending_request :: "db \<Rightarrow> nat \<Rightarrow> withdrawal_row option" where
  "pending_request s wid = find (\<lambda>r. w_id r = wid \<and> w_status r = Pending) (withdrawals s)"

definition has_balance_row :: "db \<Rightarrow> int \<Rightarrow> bool" where
  "has_balance_row s user_id = list_ex (\<lambda>r. e_user_id r = user_id) (earnings s)"

definition debit_rows :: "int \<Rightarrow> real \<Rightarrow> earning_row list \<Rightarrow> earning_row list" where
  "debit_rows u a rows = map (\<lambda>r. if e_user_id r = u then r\<lparr>e_balance := e_balance r - a\<rparr> else r) rows"

definition approve_rows :: "nat \<Rightarrow> withdrawal_row list \<Rightarrow> withdrawal_row list" where
  "approve_rows wid rows = map (\<lambda>r. if w_id r = wid then r\<lparr>w_status := Approved\<rparr> else r) rows"

definition two_requests_db :: db where
  "two_requests_db =
     snd (create_withdrawal (snd (create_withdrawal funded_db 7 250 (ustr ''bkash'') (ustr ''017'') ''t1''))
            7 100 (ustr ''nagad'') (ustr ''018'') ''t2'')"

definition request_1 :: withdrawal_row where
  "request_1 = \<lparr>w_id = 1, w_user_id = 7, w_amount = 250, w_method = ustr ''bkash'', w_target = ustr ''017'',
                 w_status = Pending, w_requested_at = ''t1''\<rparr>"

definition request_2 :: withdrawal_row where
  "request_2 = \<lparr>w_id = 2, w_user_id = 7, w_amount = 100, w_method = ustr ''nagad'', w_target = ustr ''018'',
                 w_status = Pending, w_requested_at = ''t2''\<rparr>"

lemma two_requests_db_eq:
  "two_requests_db = funded_db\<lparr>withdrawals := [request_1, request_2]\<rparr>"
  by (simp add: two_requests_db_def create_withdrawal_def next_id_def funded_db_eq Let_def
        request_1_def request_2_def)

lemma find_debit_rows:
  "find (\<lambda>r. e_user_id r = v) (debit_rows u a rows)
     = map_option (\<lambda>r. if e_user_id r = u then r\<lparr>e_balance := e_balance r - a\<rparr> else r)
         (find (\<lambda>r. e_user_id r = v) rows)"
  unfolding debit_rows_def by (rule find_map_keep) simp

lemma find_SomeD: "find P xs = Some x \<Longrightarrow> P x"
  by (induction xs) (auto split: if_splits)

lemma get_balance_debit:
  "get_balance (s\<lparr>earnings := debit_rows u a (earnings s), withdrawals := ws\<rparr>) v
     = (if v = u \<and> has_balance_row s u then get_balance s v - a else get_balance s v)"
proof (cases "find (\<lambda>r. e_user_id r = v) (earnings s)")
  case None
  then have "\<not> list_ex (\<lambda>r. e_user_id r = v) (earnings s)"
    by (simp add: find_None_list_ex)
  then show ?thesis
    by (auto simp: get_balance_def find_debit_rows has_balance_row_def None)
next
  case (Some x)
  then have "e_user_id x = v" by (rule find_SomeD)
  moreover from Some have "list_ex (\<lambda>r. e_user_id r = v) (earnings s)"
    using find_None_list_ex [of "\<lambda>r. e_user_id r = v" "earnings s"] by simp
  ultimately show ?thesis using Some
    by (auto simp: get_balance_def find_debit_rows has_balance_row_def)
qed

lemma list_ex_debit_rows:
  "list_ex (\<lambda>r. e_user_id r = v) (debit_rows u a rows) = list_ex (\<lambda>r. e_user_id r = v) rows"
  by (induction rows) (auto simp: debit_rows_def)

lemma no_pending_approve_rows:
  "find (\<lambda>r. w_id r = wid \<and> w_status r = Pending) (approve_rows wid rows) = None"
  by (induction rows) (auto simp: approve_rows_def)

lemma approve_withdrawal_none:
  "pending_request s wid = None \<Longrightarrow> approve_withdrawal s wid = (False, s)"
  by (simp add: approve_withdrawal_def pending_request_def)

lemma approve_withdrawal_poor:
  "pending_request s wid = Some row \<Longrightarrow> has_balance_row s (w_user_id row) \<Longrightarrow>
   get_balance s (w_user_id row) < w_amount row \<Longrightarrow> approve_withdrawal s wid = (False, s)"
  by (auto simp: approve_withdrawal_def pending_request_def get_balance_def split: option.splits)

lemma approve_withdrawal_ok:
  assumes "pending_request s wid = Some row" "has_balance_row s (w_user_id row)"
    and "\<not> get_balance s (w_user_id row) < w_amount row"
  shows "approve_withdrawal s wid =
           (True, s\<lparr>earnings := debit_rows (w_user_id row) (w_amount row) (earnings s),
                    withdrawals := approve_rows wid (withdrawals s)\<rparr>)"
proof -
  from assms(2) obtain bal_row where
    b: "find (\<lambda>r. e_user_id r = w_user_id row) (earnings s) = Some bal_row"
    by (cases "find (\<lambda>r. e_user_id r = w_user_id row) (earnings s)")
       (auto simp: has_balance_row_def find_None_list_ex)
  with assms(1,3) show ?thesis
    by (simp add: approve_withdrawal_def pending_request_def get_balance_def
          debit_rows_def approve_rows_def)
qed

text \<open>
  Claim C4. With no pending request of the id (absent, or approved already), approval
  fails and the store is unchanged. With a pending request whose user has a balance
  row: when the balance is below the amount, approval fails and the store is unchanged;
  otherwise it succeeds, the balance of the user goes down by the amount and no other
  balance moves, every row of that id is approved and nothing else of the table
  changes, no pending request of the id is left, and a second approval of the id fails
  and changes nothing. The function is one transition of the store: its two updates
  are committed together.
\<close>

theorem approve_withdrawal_spec:
  "(pending_request s wid = None \<longrightarrow> approve_withdrawal s wid = (False, s))
   \<and> (pending_request s wid = Some row \<and> has_balance_row s (w_user_id row) \<longrightarrow>
        (get_balance s (w_user_id row) < w_amount row \<longrightarrow> approve_withdrawal s wid = (False, s))
      \<and> (\<not> get_balance s (w_user_id row) < w_amount row \<longrightarrow>
           fst (approve_withdrawal s wid) = True
         \<and> get_balance (snd (approve_withdrawal s wid)) (w_user_id row)
             = get_balance s (w_user_id row) - w_amount row
         \<and> get_balance (snd (approve_withdrawal s wid)) v
             = (if v = w_user_id row then get_balance s v - w_amount row else get_balance s v)
         \<and> withdrawals (snd (approve_withdrawal s wid)) = approve_rows wid (withdrawals s)
         \<and> pending_request (snd (approve_withdrawal s wid)) wid = None
         \<and> approve_withdrawal (snd (approve_withdrawal s wid)) wid
             = (False, snd (approve_withdrawal s wid))
         \<and> users (snd (approve_withdrawal s wid)) = users s
         \<and> available_numbers (snd (approve_withdrawal s wid)) = available_numbers s
         \<and> otps (snd (approve_withdrawal s wid)) = otps s))"
proof (intro conjI impI)
  assume "pending_request s wid = None"
  then show "approve_withdrawal s wid = (False, s)" by (rule approve_withdrawal_none)
next
  assume a: "pending_request s wid = Some row \<and> has_balance_row s (w_user_id row)"
    and "get_balance s (w_user_id row) < w_amount row"
  then show "approve_withdrawal s wid = (False, s)" by (simp add: approve_withdrawal_poor)
next
  assume a: "pending_request s wid = Some row \<and> has_balance_row s (w_user_id row)"
    and r: "\<not> get_balance s (w_user_id row) < w_amount row"
  let ?s' = "s\<lparr>earnings := debit_rows (w_user_id row) (w_amount row) (earnings s),
               withdrawals := approve_rows wid (withdrawals s)\<rparr>"
  have ok: "approve_withdrawal s wid = (True, ?s')"
    using a r by (intro approve_withdrawal_ok) simp_all
  have bal: "get_balance ?s' v
             = (if v = w_user_id row then get_balance s v - w_amount row else get_balance s v)" for v
    using a by (simp add: get_balance_debit)
  have np: "pending_request ?s' wid = None"
    by (simp add: pending_request_def no_pending_approve_rows)
  show "fst (approve_withdrawal s wid) = True" by (simp add: ok)
  show "get_balance (snd (approve_withdrawal s wid)) (w_user_id row)
             = get_balance s (w_user_id row) - w_amount row"
    by (simp add: ok bal)
  show "get_balance (snd (approve_withdrawal s wid)) v
             = (if v = w_user_id row then get_balance s v - w_amount row else get_balance s v)"
    by (simp only: ok snd_conv bal)
  show "withdrawals (snd (approve_withdrawal s wid)) = approve_rows wid (withdrawals s)"
    by (simp add: ok)
  show "pending_request (snd (approve_withdrawal s wid)) wid = None"
    by (simp only: ok snd_conv np)
  show "approve_withdrawal (snd (approve_withdrawal s wid)) wid
             = (False, snd (approve_withdrawal s wid))"
    by (simp only: ok snd_conv approve_withdrawal_none [OF np])
  show "users (snd (approve_withdrawal s wid)) = users s"
    and "available_numbers (snd (approve_withdrawal s wid)) = available_numbers s"
    and "otps (snd (approve_withdrawal s wid)) = otps s"
    by (simp_all add: ok)
qed

theorem approve_withdrawal_spec_witness:
  "pending_request two_requests_db 3 = None
   \<and> approve_withdrawal two_requests_db 3 = (False, two_requests_db)
   \<and> pending_request two_requests_db 1 = Some request_1
   \<and> has_balance_row two_requests_db (w_user_id request_1)
   \<and> \<not> get_balance two_requests_db (w_user_id request_1) < w_amount request_1
   \<and> fst (approve_withdrawal two_requests_db 1) = True
   \<and> get_balance (snd (approve_withdrawal two_requests_db 1)) 7 = 50
   \<and> approve_withdrawal (snd (approve_withdrawal two_requests_db 1)) 1
        = (False, snd (approve_withdrawal two_requests_db 1))
   \<and> pending_request (snd (approve_withdrawal two_requests_db 1)) 2 = Some request_2
   \<and> has_balance_row (snd (approve_withdrawal two_requests_db 1)) (w_user_id request_2)
   \<and> get_balance (snd (approve_withdrawal two_requests_db 1)) (w_user_id request_2) < w_amount request_2
   \<and> approve_withdrawal (snd (approve_withdrawal two_requests_db 1)) 2
        = (False, snd (approve_withdrawal two_requests_db 1))"
proof -
  let ?s = two_requests_db
  let ?s1 = "snd (approve_withdrawal two_requests_db 1)"
  have p3: "pending_request ?s 3 = None"
    by (simp add: pending_request_def two_requests_db_eq request_1_def request_2_def)
  have p1: "pending_request ?s 1 = Some request_1"
    by (simp add: pending_request_def two_requests_db_eq request_1_def request_2_def)
  have hb: "has_balance_row ?s (w_user_id request_1)"
    by (simp add: has_balance_row_def two_requests_db_eq funded_db_eq request_1_def)
  have b: "get_balance ?s 7 = 300"
    by (simp add: get_balance_def two_requests_db_eq funded_db_eq)
  have u1: "w_user_id request_1 = 7" "w_amount request_1 = 250"
    "w_user_id request_2 = 7" "w_amount request_2 = 100"
    by (simp_all add: request_1_def request_2_def)
  have rich: "\<not> get_balance ?s (w_user_id request_1) < w_amount request_1"
    by (simp add: b u1)
  note first = approve_withdrawal_spec [of ?s 1 request_1 7]
  from first p1 hb rich have w: "withdrawals ?s1 = approve_rows 1 (withdrawals ?s)"
    and b1: "get_balance ?s1 7 = 50" and e1: "fst (approve_withdrawal ?s 1) = True"
    and again: "approve_withdrawal ?s1 1 = (False, ?s1)"
    by (simp_all add: b u1)
  have p2: "pending_request ?s1 2 = Some request_2"
    by (simp only: pending_request_def w)
       (simp add: approve_rows_def two_requests_db_eq request_1_def request_2_def)
  have s1: "?s1 = ?s\<lparr>earnings := debit_rows (w_user_id request_1) (w_amount request_1) (earnings ?s),
                       withdrawals := approve_rows 1 (withdrawals ?s)\<rparr>"
    by (simp only: approve_withdrawal_ok [OF p1 hb rich] snd_conv)
  have hb2: "has_balance_row ?s1 (w_user_id request_2)"
    using hb by (simp only: s1) (simp add: has_balance_row_def list_ex_debit_rows u1)
  have poor: "get_balance ?s1 (w_user_id request_2) < w_amount request_2"
    using b1 by (simp add: u1)
  from approve_withdrawal_spec [of ?s 3 request_1 7] p3
       approve_withdrawal_spec [of ?s1 2 request_2 7] p2 hb2 poor
       p1 hb rich b1 e1 again
  show ?thesis by simp
qed

subsection \<open>C5: submitting a withdrawal\<close>

text \<open>The bot with the store of user 7 (balance 300) and nobody in a dialogue.\<close>

definition funded_bot :: bot where
  "funded_bot = \<lparr>store = funded_db, user_states = Map.empty\<rparr>"

text \<open>
  Claim C5 says that a request below the configured minimum is rejected. The only
  comparison with \<^verbatim>\<open>MIN_WITHDRAWAL\<close> is in \<^verbatim>\<open>cb_withdraw\<close>, and it compares the balance;
  \<^verbatim>\<open>handle_withdraw_text\<close> compares the amount with the balance alone. With a minimum of
  250 and a balance of 300, the user opens the dialogue and asks for 10: request 1 is
  created for 10, pending, and the balance stays 300.
\<close>

theorem withdrawal_below_minimum_created:
  "\<forall>U. snd (handle_withdraw_text U sample_config
               (fst (cb_withdraw sample_config funded_bot 7 (Some ''alice'') ''t1''))
               7 (ustr ''bkash'') (ustr ''01700000000'') 10 ''t2'')
          = [WithdrawalCreated 1 10, AdminWithdrawalRequest 1 1 7 (ustr ''bkash'') (ustr ''01700000000'') 10]
        \<and> map (\<lambda>r. (w_id r, w_user_id r, w_amount r, w_status r))
             (withdrawals (store (fst (handle_withdraw_text U sample_config
               (fst (cb_withdraw sample_config funded_bot 7 (Some ''alice'') ''t1''))
               7 (ustr ''bkash'') (ustr ''01700000000'') 10 ''t2''))))
          = [(1, 7, 10, Pending)]
        \<and> (10 :: real) < MIN_WITHDRAWAL sample_config
        \<and> get_balance (store (fst (handle_withdraw_text U sample_config
               (fst (cb_withdraw sample_config funded_bot 7 (Some ''alice'') ''t1''))
               7 (ustr ''bkash'') (ustr ''01700000000'') 10 ''t2''))) 7 = 300"
proof (rule allI)
  fix U
  show "snd (handle_withdraw_text U sample_config
               (fst (cb_withdraw sample_config funded_bot 7 (Some ''alice'') ''t1''))
               7 (ustr ''bkash'') (ustr ''01700000000'') 10 ''t2'')
          = [WithdrawalCreated 1 10, AdminWithdrawalRequest 1 1 7 (ustr ''bkash'') (ustr ''01700000000'') 10]
        \<and> map (\<lambda>r. (w_id r, w_user_id r, w_amount r, w_status r))
             (withdrawals (store (fst (handle_withdraw_text U sample_config
               (fst (cb_withdraw sample_config funded_bot 7 (Some ''alice'') ''t1''))
               7 (ustr ''bkash'') (ustr ''01700000000'') 10 ''t2''))))
          = [(1, 7, 10, Pending)]
        \<and> (10 :: real) < MIN_WITHDRAWAL sample_config
        \<and> get_balance (store (fst (handle_withdraw_text U sample_config
               (fst (cb_withdraw sample_config funded_bot 7 (Some ''alice'') ''t1''))
               7 (ustr ''bkash'') (ustr ''01700000000'') 10 ''t2''))) 7 = 300"
  proof -
    have e: "ensure_user funded_db 7 (Some ''alice'') ''t1'' = funded_db"
      by (simp add: ensure_user_def funded_db_eq)
    have b: "get_balance funded_db 7 = 300" by (simp add: get_balance_def funded_db_eq)
    have l: "lower U (ustr ''bkash'') = ustr ''bkash''" by code_simp
    have c: "fst (cb_withdraw sample_config funded_bot 7 (Some ''alice'') ''t1'')
               = funded_bot\<lparr>user_states := [7 \<mapsto> ''awaiting_withdraw'']\<rparr>"
      by (simp add: cb_withdraw_def e b sample_config_def funded_bot_def Let_def)
    show ?thesis
      unfolding c
      by (simp add: handle_withdraw_text_def funded_bot_def b l create_withdrawal_def next_id_def
            sample_config_def Let_def get_balance_def funded_db_eq)
  qed
qed

subsection \<open>C2: the history record and the credit\<close>

text \<open>
  \<open>owned_by s u r\<close>: the number of the result \<open>r\<close> is assigned to \<open>u\<close>, an owner in the
  sense of \<^verbatim>\<open>if owner:\<close>. The sample store has user 7 holding the number 1555000111, and
  the sample page carries a code for that number.
\<close>

definition owned_by :: "db \<Rightarrow> int \<Rightarrow> otp_result \<Rightarrow> bool" where
  "owned_by s u r = (get_user_by_number s (fst r) = Some u \<and> u \<noteq> 0)"

definition owned_db :: db where
  "owned_db =
     snd (assign_number_to_user
            (add_available_number (ensure_user init_db 7 (Some ''alice'') ''t0'')
               (ustr ''1555000111'') ''UNKNOWN'' ''t0'') 7)"

definition otp_page :: ustring where
  "otp_page = ustr ''1555000111 OTP 9321''"

lemma get_balance_credit_user:
  "get_balance (credit_user s u a) v = get_balance s v + (if v = u then a else 0)"
proof -
  let ?f = "\<lambda>r. if e_user_id r = u then r\<lparr>e_balance := e_balance r + a\<rparr> else r"
  let ?P = "\<lambda>r. e_user_id r = v"
  have keep: "find ?P (map ?f rows) = map_option ?f (find ?P rows)" for rows
    by (rule find_map_keep) simp
  show ?thesis
  proof (cases "list_ex (\<lambda>r. e_user_id r = u) (earnings s)")
    case True
    show ?thesis
    proof (cases "find ?P (earnings s)")
      case None
      then have "\<not> list_ex ?P (earnings s)" by (simp add: find_None_list_ex)
      with True have "v \<noteq> u" by auto
      with None True show ?thesis by (simp add: get_balance_def credit_user_def keep)
    next
      case (Some x)
      then have "e_user_id x = v" by (rule find_SomeD)
      with Some True show ?thesis by (simp add: get_balance_def credit_user_def keep)
    qed
  next
    case False
    show ?thesis
    proof (cases "find ?P (earnings s)")
      case None
      with False show ?thesis
        by (simp add: get_balance_def credit_user_def keep find_append_one)
    next
      case (Some x)
      then have x: "e_user_id x = v" by (rule find_SomeD)
      from Some have "list_ex ?P (earnings s)"
        using find_None_list_ex [of ?P "earnings s"] by simp
      with False have "v \<noteq> u" by auto
      with Some False x show ?thesis
        by (simp add: get_balance_def credit_user_def keep find_append_one)
    qed
  qed
qed

lemma get_user_by_number_credit_user:
  "get_user_by_number (credit_user s u a) n = get_user_by_number s n"
  by (simp add: get_user_by_number_def credit_user_def Let_def)

lemma owned_by_credit_user: "owned_by (credit_user s v a) u = owned_by s u"
  by (rule ext) (simp add: owned_by_def get_user_by_number_credit_user)

lemma get_balance_credit_loop:
  "get_balance (fst (credit_loop cfg rs s out)) u
     = get_balance s u + EARN_PER_SMS cfg * real (length (filter (owned_by s u) rs))"
proof (induction rs arbitrary: s out)
  case Nil
  then show ?case by simp
next
  case (Cons r rs)
  show ?case
  proof (cases "get_user_by_number s (fst r)")
    case None
    then show ?thesis by (simp add: Cons.IH Let_def owned_by_def)
  next
    case (Some v)
    show ?thesis
    proof (cases "v = 0")
      case True
      with Some show ?thesis by (simp add: Cons.IH Let_def owned_by_def)
    next
      case False
      have f: "filter (owned_by (credit_user s v (EARN_PER_SMS cfg)) u) rs = filter (owned_by s u) rs"
        by (simp add: owned_by_credit_user)
      from Some False show ?thesis
        by (simp add: Cons.IH Let_def f get_balance_credit_user) (simp add: owned_by_def algebra_simps)
    qed
  qed
qed

lemma process_loop_frame:
  "users (fst (process_loop U now page ms s results)) = users s
   \<and> earnings (fst (process_loop U now page ms s results)) = earnings s
   \<and> available_numbers (fst (process_loop U now page ms s results)) = available_numbers s
   \<and> withdrawals (fst (process_loop U now page ms s results)) = withdrawals s"
proof (induction ms arbitrary: s results)
  case Nil
  then show ?case by simp
next
  case (Cons m ms)
  show ?case
  proof (cases "find_otp U page m")
    case None
    then show ?thesis using Cons.IH by simp
  next
    case (Some otp)
    show ?thesis
    proof (cases "otp_exists s (slice page (fst m) (snd m)) otp")
      case True
      with Some show ?thesis using Cons.IH by simp
    next
      case False
      with Some show ?thesis by (simp add: Let_def Cons.IH) (simp add: save_otp_def)
    qed
  qed
qed

lemma process_frame:
  "users (fst (process_incoming_otps_single_scraper U now fetched s)) = users s
   \<and> earnings (fst (process_incoming_otps_single_scraper U now fetched s)) = earnings s
   \<and> available_numbers (fst (process_incoming_otps_single_scraper U now fetched s)) = available_numbers s
   \<and> withdrawals (fst (process_incoming_otps_single_scraper U now fetched s)) = withdrawals s"
  by (cases fetched) (simp_all add: process_incoming_otps_single_scraper_def process_loop_frame)

lemma process_loop_new_recorded:
  "list_all (\<lambda>r. otp_exists s (fst r) (fst (snd r)) \<and> (fst r, fst (snd r)) \<notin> K) results \<Longrightarrow>
   K \<subseteq> set (otp_keys s) \<Longrightarrow>
   list_all (\<lambda>r. otp_exists (fst (process_loop U now page ms s results)) (fst r) (fst (snd r))
                \<and> (fst r, fst (snd r)) \<notin> K)
     (snd (process_loop U now page ms s results))"
proof (induction ms arbitrary: s results)
  case Nil
  then show ?case by simp
next
  case (Cons m ms)
  show ?case
  proof (cases "find_otp U page m")
    case None
    then show ?thesis using Cons by simp
  next
    case (Some otp)
    show ?thesis
    proof (cases "otp_exists s (slice page (fst m) (snd m)) otp")
      case True
      with Some show ?thesis using Cons by simp
    next
      case False
      let ?n = "slice page (fst m) (snd m)"
      let ?r = "(?n, otp, snippet_of page m, detect_service U (snippet_of page m), ''UNKNOWN'')"
      let ?s = "save_otp s ?n otp (snippet_of page m) (detect_service U (snippet_of page m)) ''UNKNOWN'' now"
      have a: "list_all (\<lambda>r. otp_exists ?s (fst r) (fst (snd r)) \<and> (fst r, fst (snd r)) \<notin> K)
                 (results @ [?r])"
        using Cons.prems False
        by (auto simp: list_all_iff otp_exists_keys otp_keys_save_otp)
      have b: "K \<subseteq> set (otp_keys ?s)" using Cons.prems(2) by (auto simp: otp_keys_save_otp)
      from Cons.IH [OF a b] Some False show ?thesis by (simp add: Let_def)
    qed
  qed
qed

lemma process_new_recorded:
  "list_all (\<lambda>r. otp_exists (fst (process_incoming_otps_single_scraper U now fetched s)) (fst r) (fst (snd r))
                \<and> \<not> otp_exists s (fst r) (fst (snd r)))
     (snd (process_incoming_otps_single_scraper U now fetched s))"
proof (cases fetched)
  case FetchError
  then show ?thesis by (simp add: process_incoming_otps_single_scraper_def)
next
  case (Response status page)
  have "list_all (\<lambda>r. otp_exists (fst (process_loop U now page (finditer_number U 0 page) s [])) (fst r) (fst (snd r))
                \<and> (fst r, fst (snd r)) \<notin> set (otp_keys s))
     (snd (process_loop U now page (finditer_number U 0 page) s []))"
    by (rule process_loop_new_recorded) simp_all
  with Response show ?thesis
    by (simp add: process_incoming_otps_single_scraper_def otp_exists_keys)
qed

lemma owned_db_eq:
  "owned_db = \<lparr>users = [\<lparr>u_user_id = 7, u_username = Some ''alice'', u_created_at = ''t0''\<rparr>],
               earnings = [\<lparr>e_user_id = 7, e_balance = 0\<rparr>],
               available_numbers = [\<lparr>n_number = ustr ''1555000111'', n_country = ''UNKNOWN'',
                                      n_assigned_to = Some 7, n_added_at = ''t0''\<rparr>],
               otps = [], withdrawals = []\<rparr>"
  by (simp add: owned_db_def assign_number_to_user_def add_available_number_def ensure_user_def
        init_db_def Let_def)

lemma otp_page_results:
  "snd (process_incoming_otps_single_scraper U ''t1'' (Response 200 otp_page) owned_db)
     = [(ustr ''1555000111'', ustr ''9321'', ustr '' OTP 9321'', ''Service'', ''UNKNOWN'')]"
  by code_simp

text \<open>
  Claim C2 says that the history record and the credit are one atomic step, so that no
  state has the record without the credit. In the source \<^verbatim>\<open>save_otp\<close> commits inside
  the matcher, for every tuple of the page, and \<^verbatim>\<open>credit_user\<close> commits later, in the
  loop of \<^verbatim>\<open>otp_poll_loop\<close>, after a message to the group has been awaited. On the
  sample, the store that the matcher returns has the record of (1555000111, 9321),
  the number is owned by user 7, and the balance of user 7 is still 0; the whole
  cycle brings it to 1. A cycle that starts from that intermediate store (the earlier
  one having stopped there) finds the pair recorded and credits nothing.
\<close>

theorem recorded_but_uncredited_counterexample:
  "\<forall>U. snd (process_incoming_otps_single_scraper U ''t1'' (Response 200 otp_page) owned_db)
          = [(ustr ''1555000111'', ustr ''9321'', ustr '' OTP 9321'', ''Service'', ''UNKNOWN'')]
        \<and> \<not> otp_exists owned_db (ustr ''1555000111'') (ustr ''9321'')
        \<and> otp_exists (fst (process_incoming_otps_single_scraper U ''t1'' (Response 200 otp_page) owned_db))
             (ustr ''1555000111'') (ustr ''9321'')
        \<and> get_user_by_number (fst (process_incoming_otps_single_scraper U ''t1'' (Response 200 otp_page) owned_db))
             (ustr ''1555000111'') = Some 7
        \<and> get_balance (fst (process_incoming_otps_single_scraper U ''t1'' (Response 200 otp_page) owned_db)) 7 = 0
        \<and> get_balance (fst (otp_poll_cycle U sample_config ''t1'' (Response 200 otp_page) owned_db)) 7 = 1
        \<and> get_balance (fst (otp_poll_cycle U sample_config ''t2'' (Response 200 otp_page)
             (fst (process_incoming_otps_single_scraper U ''t1'' (Response 200 otp_page) owned_db)))) 7 = 0"
proof (rule allI)
  fix U
  show "snd (process_incoming_otps_single_scraper U ''t1'' (Response 200 otp_page) owned_db)
          = [(ustr ''1555000111'', ustr ''9321'', ustr '' OTP 9321'', ''Service'', ''UNKNOWN'')]
        \<and> \<not> otp_exists owned_db (ustr ''1555000111'') (ustr ''9321'')
        \<and> otp_exists (fst (process_incoming_otps_single_scraper U ''t1'' (Response 200 otp_page) owned_db))
             (ustr ''1555000111'') (ustr ''9321'')
        \<and> get_user_by_number (fst (process_incoming_otps_single_scraper U ''t1'' (Response 200 otp_page) owned_db))
             (ustr ''1555000111'') = Some 7
        \<and> get_balance (fst (process_incoming_otps_single_scraper U ''t1'' (Response 200 otp_page) owned_db)) 7 = 0
        \<and> get_balance (fst (otp_poll_cycle U sample_config ''t1'' (Response 200 otp_page) owned_db)) 7 = 1
        \<and> get_balance (fst (otp_poll_cycle U sample_config ''t2'' (Response 200 otp_page)
             (fst (process_incoming_otps_single_scraper U ''t1'' (Response 200 otp_page) owned_db)))) 7 = 0"
  proof -
    let ?P = "process_incoming_otps_single_scraper U ''t1'' (Response 200 otp_page) owned_db"
    have r: "snd ?P = [(ustr ''1555000111'', ustr ''9321'', ustr '' OTP 9321'', ''Service'', ''UNKNOWN'')]"
      by (rule otp_page_results)
    have n0: "\<not> otp_exists owned_db (ustr ''1555000111'') (ustr ''9321'')"
      by (simp add: otp_exists_def owned_db_eq)
    have rec: "otp_exists (fst ?P) (ustr ''1555000111'') (ustr ''9321'')"
      using process_new_recorded [of U "''t1''" "Response 200 otp_page" owned_db] by (simp add: r)
    have fr: "earnings (fst ?P) = [\<lparr>e_user_id = 7, e_balance = 0\<rparr>]"
      "available_numbers (fst ?P) = [\<lparr>n_number = ustr ''1555000111'', n_country = ''UNKNOWN'',
                                        n_assigned_to = Some 7, n_added_at = ''t0''\<rparr>]"
      using process_frame [of U "''t1''" "Response 200 otp_page" owned_db]
      by (simp_all add: owned_db_eq)
    have own: "get_user_by_number (fst ?P) (ustr ''1555000111'') = Some 7"
      by (simp add: get_user_by_number_def fr)
    have b1: "get_balance (fst ?P) 7 = 0" by (simp add: get_balance_def fr)
    have full: "get_balance (fst (otp_poll_cycle U sample_config ''t1'' (Response 200 otp_page) owned_db)) 7 = 1"
      by (simp add: otp_poll_cycle_alt r own sample_config_def get_balance_credit_user b1)
    have none: "snd (process_incoming_otps_single_scraper U ''t2'' (Response 200 otp_page) (fst ?P)) = []"
      by code_simp
    have "earnings (fst (process_incoming_otps_single_scraper U ''t2'' (Response 200 otp_page) (fst ?P)))
            = [\<lparr>e_user_id = 7, e_balance = 0\<rparr>]"
      using process_frame [of U "''t2''" "Response 200 otp_page" "fst ?P"] by (simp add: fr)
    then have later: "get_balance (fst (otp_poll_cycle U sample_config ''t2'' (Response 200 otp_page) (fst ?P))) 7 = 0"
      by (simp add: otp_poll_cycle_alt none get_balance_def)
    from r n0 rec own b1 full later show ?thesis by simp
  qed
qed

text \<open>
  C2 as amended: the matcher commits the record of every newly matched tuple and
  changes no balance; the credits are the later step of the cycle, and when the cycle
  has run to its end the balance of every user has grown by the reward times the
  number of emitted tuples whose number the user owns, the history being the one the
  matcher left.
\<close>

theorem record_then_credit:
  "list_all (\<lambda>r. otp_exists (fst (process_incoming_otps_single_scraper U now fetched s)) (fst r) (fst (snd r))
                \<and> \<not> otp_exists s (fst r) (fst (snd r)))
     (snd (process_incoming_otps_single_scraper U now fetched s))
   \<and> earnings (fst (process_incoming_otps_single_scraper U now fetched s)) = earnings s
   \<and> get_balance (fst (process_incoming_otps_single_scraper U now fetched s)) u = get_balance s u
   \<and> otp_poll_cycle U cfg now fetched s
       = credit_loop cfg (snd (process_incoming_otps_single_scraper U now fetched s))
           (fst (process_incoming_otps_single_scraper U now fetched s)) []
   \<and> otps (fst (otp_poll_cycle U cfg now fetched s))
       = otps (fst (process_incoming_otps_single_scraper U now fetched s))
   \<and> get_balance (fst (otp_poll_cycle U cfg now fetched s)) u
       = get_balance s u
         + EARN_PER_SMS cfg
           * real (length (filter (owned_by s u) (snd (process_incoming_otps_single_scraper U now fetched s))))"
proof -
  let ?P = "process_incoming_otps_single_scraper U now fetched s"
  have e: "earnings (fst ?P) = earnings s" and n: "available_numbers (fst ?P) = available_numbers s"
    using process_frame [of U now fetched s] by simp_all
  have b: "get_balance (fst ?P) u = get_balance s u" by (simp add: get_balance_def e)
  have o: "owned_by (fst ?P) u = owned_by s u"
    by (rule ext) (simp add: owned_by_def get_user_by_number_def n)
  show ?thesis
    using process_new_recorded [of U now fetched s] e b
    by (simp add: otp_poll_cycle_alt otps_credit_loop get_balance_credit_loop o)
qed

subsection \<open>C3: the balance as a ledger\<close>

text \<open>
  What the bot receives, one constructor for each handler and one for a turn of the
  poll loop; the sender of a message or button press comes first. \<open>handle\<close>
  dispatches as the decorators of the source do, \<open>on_startup\<close> is the state after
  \<^verbatim>\<open>on_startup\<close> (a fresh database, the admin registered, a first sync), and \<open>run\<close>
  feeds a list of events to the bot, collecting what it sends.
\<close>

datatype event =
    EvStart int "string option" timestamp
  | EvGetNumber int "string option" timestamp
  | EvAccount int "string option" timestamp
  | EvWithdraw int "string option" timestamp
  | EvWithdrawText int ustring ustring real timestamp
  | EvSync int timestamp fetch_result
  | EvWithdrawals int
  | EvApprove int nat
  | EvStats int
  | EvPoll timestamp fetch_result

fun handle :: "unicode \<Rightarrow> config \<Rightarrow> bot \<Rightarrow> event \<Rightarrow> bot \<times> outmsg list" where
  "handle U cfg b (EvStart uid uname now) = cmd_start b uid uname now"
| "handle U cfg b (EvGetNumber uid uname now) = cb_get_number b uid uname now"
| "handle U cfg b (EvAccount uid uname now) = cb_account b uid uname now"
| "handle U cfg b (EvWithdraw uid uname now) = cb_withdraw cfg b uid uname now"
| "handle U cfg b (EvWithdrawText uid method number amount now) =
     handle_withdraw_text U cfg b uid method number amount now"
| "handle U cfg b (EvSync sender now fetched) = cmd_sync U cfg b sender now fetched"
| "handle U cfg b (EvWithdrawals sender) = cmd_withdrawals cfg b sender"
| "handle U cfg b (EvApprove sender wid) = cmd_approve cfg b sender wid"
| "handle U cfg b (EvStats sender) = cmd_stats cfg b sender"
| "handle U cfg b (EvPoll now fetched) =
     (b\<lparr>store := fst (otp_poll_cycle U cfg now fetched (store b))\<rparr>,
      snd (otp_poll_cycle U cfg now fetched (store b)))"

definition on_startup :: "unicode \<Rightarrow> config \<Rightarrow> timestamp \<Rightarrow> fetch_result \<Rightarrow> bot" where
  "on_startup U cfg now fetched =
     \<lparr>store = snd (sync_numbers_from_ivasms U now fetched
                     (ensure_user init_db (ADMIN_ID cfg) (Some ''admin'') now)),
      user_states = Map.empty\<rparr>"

fun run :: "unicode \<Rightarrow> config \<Rightarrow> event list \<Rightarrow> bot \<Rightarrow> bot \<times> outmsg list" where
  "run U cfg [] b = (b, [])"
| "run U cfg (e # es) b =
     (let (b1, out1) = handle U cfg b e; (b2, out2) = run U cfg es b1 in (b2, out1 @ out2))"












lemma fold_max_ge: "a \<le> fold max xs (a :: nat)"
  by (induction xs arbitrary: a) (auto intro: order_trans [OF max.cobounded2])

lemma fold_max_mem: "x \<in> set xs \<Longrightarrow> x \<le> fold max xs (a :: nat)"
proof (induction xs arbitrary: a)
  case Nil
  then show ?case by simp
next
  case (Cons y ys)
  show ?case
  proof (cases "x = y")
    case True
    have "y \<le> max y a" by simp
    also have "\<dots> \<le> fold max ys (max y a)" by (rule fold_max_ge)
    finally show ?thesis using True by simp
  next
    case False
    with Cons.prems have "x \<in> set ys" by simp
    then show ?thesis by (simp add: Cons.IH)
  qed
qed

lemma next_id_fresh: "next_id ids \<notin> set ids"
proof
  assume "next_id ids \<in> set ids"
  then have "next_id ids \<le> fold max ids 0" by (rule fold_max_mem)
  then show False by (simp add: next_id_def)
qed

lemma credit_loop_withdrawals: "withdrawals (fst (credit_loop cfg rs s out)) = withdrawals s"
  by (induction rs arbitrary: s out)
     (auto simp: Let_def credit_user_def split: option.splits)










lemma poll_withdrawals:
  "withdrawals (fst (otp_poll_cycle U cfg now fetched s)) = withdrawals s"
  using process_frame [of U now fetched s]
  by (simp add: otp_poll_cycle_alt credit_loop_withdrawals)

lemma approve_withdrawal_cases:
  "approve_withdrawal s wid = (False, s)
   \<or> (\<exists>row. pending_request s wid = Some row \<and> has_balance_row s (w_user_id row)
           \<and> \<not> get_balance s (w_user_id row) < w_amount row
           \<and> approve_withdrawal s wid
               = (True, s\<lparr>earnings := debit_rows (w_user_id row) (w_amount row) (earnings s),
                          withdrawals := approve_rows wid (withdrawals s)\<rparr>))"
proof (cases "pending_request s wid")
  case None
  then show ?thesis by (simp add: approve_withdrawal_none)
next
  case (Some row)
  show ?thesis
  proof (cases "has_balance_row s (w_user_id row)")
    case False
    then have "find (\<lambda>r. e_user_id r = w_user_id row) (earnings s) = None"
      by (simp add: has_balance_row_def find_None_list_ex)
    with Some show ?thesis by (simp add: approve_withdrawal_def pending_request_def)
  next
    case True
    show ?thesis
    proof (cases "get_balance s (w_user_id row) < w_amount row")
      case True
      with Some \<open>has_balance_row s (w_user_id row)\<close> show ?thesis
        by (simp add: approve_withdrawal_poor)
    next
      case False
      with Some True show ?thesis by (simp add: approve_withdrawal_ok)
    qed
  qed
qed

lemma find_pending_is_find_id:
  "distinct (map w_id ws) \<Longrightarrow>
   find (\<lambda>r. w_id r = wid \<and> w_status r = Pending) ws = Some row \<Longrightarrow>
   find (\<lambda>r. w_id r = wid) ws = Some row"
proof (induction ws)
  case Nil
  then show ?case by simp
next
  case (Cons a ws)
  show ?case
  proof (cases "w_id a = wid")
    case False
    with Cons show ?thesis by simp
  next
    case True
    show ?thesis
    proof (cases "w_status a = Pending")
      case True
      with \<open>w_id a = wid\<close> Cons.prems show ?thesis by simp
    next
      case False
      with True Cons.prems(2)
      have f: "find (\<lambda>r. w_id r = wid \<and> w_status r = Pending) ws = Some row" by simp
      then have "w_id row = wid" using find_SomeD [OF f] by simp
      moreover from f have "row \<in> set ws" by (auto simp: find_Some_iff in_set_conv_nth)
      ultimately have "wid \<in> w_id ` set ws" by auto
      with True Cons.prems(1) show ?thesis by simp
    qed
  qed
qed






lemma assign_frame:
  "earnings (snd (assign_number_to_user s u)) = earnings s
   \<and> withdrawals (snd (assign_number_to_user s u)) = withdrawals s"
  by (simp add: assign_number_to_user_def split: option.splits)

lemma ensure_user_withdrawals: "withdrawals (ensure_user s uid uname now) = withdrawals s"
  by (simp add: ensure_user_def Let_def)

lemma sync_frame:
  "earnings (snd (sync_numbers_from_ivasms U now fetched s)) = earnings s
   \<and> withdrawals (snd (sync_numbers_from_ivasms U now fetched s)) = withdrawals s"
  by (cases fetched) (simp_all add: sync_numbers_from_ivasms_def sync_loop_others)

lemma create_withdrawal_frame:
  "earnings (snd (create_withdrawal s uid a m t now)) = earnings s
   \<and> (distinct (map w_id (withdrawals s))
        \<longrightarrow> distinct (map w_id (withdrawals (snd (create_withdrawal s uid a m t now)))))"
  using next_id_fresh [of "map w_id (withdrawals s)"]
  by (simp add: create_withdrawal_def Let_def)





















lemma run_Cons:
  "fst (run U cfg (e # es) b) = fst (run U cfg es (fst (handle U cfg b e)))"
  by (simp add: split_beta)




lemma on_startup_withdrawals: "withdrawals (store (on_startup U cfg now fetched)) = []"
proof -
  let ?s0 = "ensure_user init_db (ADMIN_ID cfg) (Some ''admin'') now"
  have "withdrawals (store (on_startup U cfg now fetched)) = withdrawals ?s0"
    using sync_frame [of U now fetched ?s0] by (simp add: on_startup_def)
  then show ?thesis by (simp add: ensure_user_withdrawals init_db_def)
qed



subsection \<open>Every request has a requester with a balance row\<close>

text \<open>
  The theorem of C4 is stated for a request whose user has a row in \<^verbatim>\<open>earnings\<close>. That
  is so in every state the bot reaches from startup: a request is created only for a
  user in the withdraw dialogue, \<^verbatim>\<open>cb_withdraw\<close> registers the user before it opens the
  dialogue, and no statement removes a row of \<^verbatim>\<open>earnings\<close>.
\<close>

definition requests_funded :: "bot \<Rightarrow> bool" where
  "requests_funded b =
     (list_all (\<lambda>r. has_balance_row (store b) (w_user_id r)) (withdrawals (store b))
      \<and> (\<forall>uid. user_states b uid = Some ''awaiting_withdraw'' \<longrightarrow> has_balance_row (store b) uid))"

lemma requests_fundedI:
  assumes mono: "\<And>v. has_balance_row (store b) v \<Longrightarrow> has_balance_row (store b') v"
    and rows: "\<And>r. r \<in> set (withdrawals (store b')) \<Longrightarrow>
      w_user_id r \<in> w_user_id ` set (withdrawals (store b)) \<or> has_balance_row (store b') (w_user_id r)"
    and states: "\<And>uid. user_states b' uid = Some ''awaiting_withdraw'' \<Longrightarrow>
      user_states b uid = Some ''awaiting_withdraw'' \<or> has_balance_row (store b') uid"
    and old: "requests_funded b"
  shows "requests_funded b'"
proof -
  from old have o1: "\<And>r. r \<in> set (withdrawals (store b)) \<Longrightarrow> has_balance_row (store b) (w_user_id r)"
    and o2: "\<And>uid. user_states b uid = Some ''awaiting_withdraw'' \<Longrightarrow> has_balance_row (store b) uid"
    by (simp_all add: requests_funded_def list_all_iff)
  have 1: "has_balance_row (store b') (w_user_id r)" if "r \<in> set (withdrawals (store b'))" for r
  proof -
    from rows [OF that] show ?thesis
    proof
      assume "w_user_id r \<in> w_user_id ` set (withdrawals (store b))"
      then obtain r0 where "r0 \<in> set (withdrawals (store b))" "w_user_id r = w_user_id r0" by blast
      with o1 [of r0] mono show ?thesis by simp
    qed
  qed
  have 2: "has_balance_row (store b') uid" if "user_states b' uid = Some ''awaiting_withdraw''" for uid
  proof -
    from states [OF that] show ?thesis
    proof
      assume "user_states b uid = Some ''awaiting_withdraw''"
      then show ?thesis by (intro mono o2)
    qed
  qed
  from 1 2 show ?thesis by (simp add: requests_funded_def list_all_iff)
qed

lemma list_ex_credit_rows:
  "list_ex (\<lambda>r. e_user_id r = v)
     (map (\<lambda>r. if e_user_id r = u then r\<lparr>e_balance := e_balance r + a\<rparr> else r) rows)
   = list_ex (\<lambda>r. e_user_id r = v) rows"
  by (induction rows) auto

lemma has_balance_row_earnings:
  "earnings s' = earnings s \<Longrightarrow> has_balance_row s' v = has_balance_row s v"
  by (simp add: has_balance_row_def)

lemma has_balance_row_ensure_user:
  "has_balance_row (ensure_user s uid uname now) v \<longleftrightarrow> has_balance_row s v \<or> v = uid"
  by (auto simp: has_balance_row_def earnings_ensure_user list_ex_iff)

lemma has_balance_row_credit_user:
  "has_balance_row s v \<Longrightarrow> has_balance_row (credit_user s u a) v"
  by (simp add: has_balance_row_def credit_user_def Let_def list_ex_credit_rows)

lemma has_balance_row_credit_loop:
  "has_balance_row s v \<Longrightarrow> has_balance_row (fst (credit_loop cfg rs s out)) v"
  by (induction rs arbitrary: s out)
     (auto simp: Let_def has_balance_row_credit_user split: option.splits)

lemma has_balance_row_poll:
  "has_balance_row s v \<Longrightarrow> has_balance_row (fst (otp_poll_cycle U cfg now fetched s)) v"
proof -
  assume a: "has_balance_row s v"
  have "earnings (fst (process_incoming_otps_single_scraper U now fetched s)) = earnings s"
    using process_frame [of U now fetched s] by simp
  then have "has_balance_row (fst (process_incoming_otps_single_scraper U now fetched s)) v"
    using a by (simp add: has_balance_row_def)
  then show ?thesis by (simp only: otp_poll_cycle_alt has_balance_row_credit_loop)
qed


lemma funded_store:
  assumes old: "requests_funded b"
    and mono: "\<And>v. has_balance_row (store b) v \<Longrightarrow> has_balance_row s' v"
    and rows: "\<And>r. r \<in> set (withdrawals s') \<Longrightarrow>
      w_user_id r \<in> w_user_id ` set (withdrawals (store b)) \<or> has_balance_row s' (w_user_id r)"
  shows "requests_funded (b\<lparr>store := s'\<rparr>)"
proof (rule requests_fundedI [OF _ _ _ old])
  show "has_balance_row (store (b\<lparr>store := s'\<rparr>)) v" if "has_balance_row (store b) v" for v
    using mono [OF that] by simp
  show "w_user_id r \<in> w_user_id ` set (withdrawals (store b))
        \<or> has_balance_row (store (b\<lparr>store := s'\<rparr>)) (w_user_id r)"
    if "r \<in> set (withdrawals (store (b\<lparr>store := s'\<rparr>)))" for r
    using rows [of r] that by simp
  show "user_states b uid = Some ''awaiting_withdraw'' \<or> has_balance_row (store (b\<lparr>store := s'\<rparr>)) uid"
    if "user_states (b\<lparr>store := s'\<rparr>) uid = Some ''awaiting_withdraw''" for uid
    using that by simp
qed

lemma funded_states:
  assumes old: "requests_funded b"
    and new: "\<And>uid. st uid = Some ''awaiting_withdraw'' \<Longrightarrow>
      user_states b uid = Some ''awaiting_withdraw'' \<or> has_balance_row (store b) uid"
  shows "requests_funded (b\<lparr>user_states := st\<rparr>)"
proof (rule requests_fundedI [OF _ _ _ old])
  show "has_balance_row (store (b\<lparr>user_states := st\<rparr>)) v" if "has_balance_row (store b) v" for v
    using that by simp
  show "w_user_id r \<in> w_user_id ` set (withdrawals (store b))
        \<or> has_balance_row (store (b\<lparr>user_states := st\<rparr>)) (w_user_id r)"
    if "r \<in> set (withdrawals (store (b\<lparr>user_states := st\<rparr>)))" for r
    using that by simp
  show "user_states b uid = Some ''awaiting_withdraw''
        \<or> has_balance_row (store (b\<lparr>user_states := st\<rparr>)) uid"
    if "user_states (b\<lparr>user_states := st\<rparr>) uid = Some ''awaiting_withdraw''" for uid
    using new [of uid] that by simp
qed

lemma funded_ensure_user:
  "requests_funded b \<Longrightarrow> requests_funded (b\<lparr>store := ensure_user (store b) uid uname now\<rparr>)"
  by (erule funded_store) (simp_all add: has_balance_row_ensure_user ensure_user_withdrawals)

lemma F_start: "requests_funded b \<Longrightarrow> requests_funded (fst (cmd_start b uid uname now))"
  by (simp add: cmd_start_def funded_ensure_user)

lemma F_account: "requests_funded b \<Longrightarrow> requests_funded (fst (cb_account b uid uname now))"
  by (simp add: cb_account_def Let_def funded_ensure_user)

lemma F_withdraw:
  assumes "requests_funded b"
  shows "requests_funded (fst (cb_withdraw cfg b uid uname now))"
proof -
  let ?b1 = "b\<lparr>store := ensure_user (store b) uid uname now\<rparr>"
  have f1: "requests_funded ?b1" using assms by (rule funded_ensure_user)
  have "requests_funded (?b1\<lparr>user_states := (user_states ?b1)(uid \<mapsto> ''awaiting_withdraw'')\<rparr>)"
    by (rule funded_states [OF f1]) (simp add: has_balance_row_ensure_user split: if_splits)
  with f1 show ?thesis by (simp add: cb_withdraw_def Let_def)
qed

lemma F_withdrawals: "requests_funded b \<Longrightarrow> requests_funded (fst (cmd_withdrawals cfg b sender))"
  by (simp add: cmd_withdrawals_def Let_def)

lemma F_stats: "requests_funded b \<Longrightarrow> requests_funded (fst (cmd_stats cfg b sender))"
  by (simp add: cmd_stats_def)

lemma F_poll:
  "requests_funded b \<Longrightarrow>
   requests_funded (b\<lparr>store := fst (otp_poll_cycle U cfg now fetched (store b))\<rparr>)"
  by (erule funded_store) (simp_all add: has_balance_row_poll poll_withdrawals)


lemma cb_get_number_fst:
  "fst (cb_get_number b uid uname now)
     = b\<lparr>store := snd (assign_number_to_user (ensure_user (store b) uid uname now) uid)\<rparr>"
  by (simp add: cb_get_number_def Let_def split: prod.splits option.splits)

lemma F_get_number:
  assumes "requests_funded b"
  shows "requests_funded (fst (cb_get_number b uid uname now))"
proof -
  let ?s1 = "ensure_user (store b) uid uname now"
  let ?s2 = "snd (assign_number_to_user ?s1 uid)"
  have e: "earnings ?s2 = earnings ?s1" and w: "withdrawals ?s2 = withdrawals ?s1"
    using assign_frame [of ?s1 uid] by simp_all
  have "requests_funded (b\<lparr>store := ?s2\<rparr>)"
    by (rule funded_store [OF assms])
       (simp_all add: has_balance_row_earnings [OF e] has_balance_row_ensure_user w
          ensure_user_withdrawals)
  then show ?thesis by (simp only: cb_get_number_fst)
qed

lemma cmd_sync_fst:
  "fst (cmd_sync U cfg b sender now fetched)
     = (if sender \<noteq> ADMIN_ID cfg then b
        else b\<lparr>store := snd (sync_numbers_from_ivasms U now fetched (store b))\<rparr>)"
  by (simp add: cmd_sync_def split: prod.splits)

lemma F_sync:
  assumes "requests_funded b"
  shows "requests_funded (fst (cmd_sync U cfg b sender now fetched))"
proof -
  let ?s1 = "snd (sync_numbers_from_ivasms U now fetched (store b))"
  have e: "earnings ?s1 = earnings (store b)" and w: "withdrawals ?s1 = withdrawals (store b)"
    using sync_frame [of U now fetched "store b"] by simp_all
  have "requests_funded (b\<lparr>store := ?s1\<rparr>)"
    by (rule funded_store [OF assms]) (simp_all add: has_balance_row_earnings [OF e] w)
  with assms show ?thesis by (simp only: cmd_sync_fst split: if_splits) simp
qed

lemma handle_withdraw_text_fst:
  "fst (handle_withdraw_text U cfg b uid m n amount now)
     = (if user_states b uid \<noteq> Some ''awaiting_withdraw'' then b
        else if amount > get_balance (store b) uid
             then b\<lparr>user_states := (user_states b)(uid := None)\<rparr>
             else b\<lparr>store := snd (create_withdrawal (store b) uid amount (lower U m) n now),
                    user_states := (user_states b)(uid := None)\<rparr>)"
  by (simp add: handle_withdraw_text_def Let_def split: prod.splits)

lemma F_withdraw_text:
  assumes "requests_funded b"
  shows "requests_funded (fst (handle_withdraw_text U cfg b uid m n amount now))"
proof (cases "user_states b uid = Some ''awaiting_withdraw''")
  case False
  with assms show ?thesis by (simp add: handle_withdraw_text_fst)
next
  case True
  with assms have hb: "has_balance_row (store b) uid" by (simp add: requests_funded_def)
  let ?s1 = "snd (create_withdrawal (store b) uid amount (lower U m) n now)"
  let ?b1 = "b\<lparr>store := ?s1\<rparr>"
  have e: "earnings ?s1 = earnings (store b)"
    using create_withdrawal_frame [of "store b" uid amount "lower U m" n now] by simp
  have f1: "requests_funded ?b1"
  proof (rule funded_store [OF assms])
    show "has_balance_row ?s1 v" if "has_balance_row (store b) v" for v
      using that by (simp add: has_balance_row_earnings [OF e])
    show "w_user_id r \<in> w_user_id ` set (withdrawals (store b)) \<or> has_balance_row ?s1 (w_user_id r)"
      if "r \<in> set (withdrawals ?s1)" for r
      using that hb by (auto simp: create_withdrawal_def Let_def has_balance_row_def)
  qed
  have p0: "requests_funded (b\<lparr>user_states := (user_states b)(uid := None)\<rparr>)"
    by (rule funded_states [OF assms]) (simp split: if_splits)
  have p1: "requests_funded (?b1\<lparr>user_states := (user_states ?b1)(uid := None)\<rparr>)"
    by (rule funded_states [OF f1]) (simp split: if_splits)
  from True p0 p1 show ?thesis by (simp add: handle_withdraw_text_fst)
qed

lemma users_approve_rows: "map w_user_id (approve_rows wid ws) = map w_user_id ws"
  by (induction ws) (auto simp: approve_rows_def)

lemma F_approve:
  assumes "requests_funded b"
  shows "requests_funded (fst (cmd_approve cfg b sender wid))"
proof (cases "sender = ADMIN_ID cfg")
  case False
  with assms show ?thesis by (simp add: cmd_approve_def)
next
  case True
  from approve_withdrawal_cases [of "store b" wid] show ?thesis
  proof
    assume "approve_withdrawal (store b) wid = (False, store b)"
    with True assms show ?thesis by (simp add: cmd_approve_def)
  next
    assume "\<exists>row. pending_request (store b) wid = Some row
        \<and> has_balance_row (store b) (w_user_id row)
        \<and> \<not> get_balance (store b) (w_user_id row) < w_amount row
        \<and> approve_withdrawal (store b) wid
            = (True, (store b)\<lparr>earnings := debit_rows (w_user_id row) (w_amount row) (earnings (store b)),
                               withdrawals := approve_rows wid (withdrawals (store b))\<rparr>)"
    then obtain row where p: "pending_request (store b) wid = Some row"
      and h: "has_balance_row (store b) (w_user_id row)"
      and r: "\<not> get_balance (store b) (w_user_id row) < w_amount row"
      and ok: "approve_withdrawal (store b) wid
            = (True, (store b)\<lparr>earnings := debit_rows (w_user_id row) (w_amount row) (earnings (store b)),
                               withdrawals := approve_rows wid (withdrawals (store b))\<rparr>)"
      by blast
    let ?s1 = "(store b)\<lparr>earnings := debit_rows (w_user_id row) (w_amount row) (earnings (store b)),
                          withdrawals := approve_rows wid (withdrawals (store b))\<rparr>"
    have "requests_funded (b\<lparr>store := ?s1\<rparr>)"
    proof (rule funded_store [OF assms])
      show "has_balance_row ?s1 v" if "has_balance_row (store b) v" for v
        using that by (simp add: has_balance_row_def list_ex_debit_rows)
      show "w_user_id r \<in> w_user_id ` set (withdrawals (store b)) \<or> has_balance_row ?s1 (w_user_id r)"
        if "r \<in> set (withdrawals ?s1)" for r
      proof -
        from that have "w_user_id r \<in> set (map w_user_id (approve_rows wid (withdrawals (store b))))"
          by simp
        then show ?thesis by (simp only: users_approve_rows) simp
      qed
    qed
    with True show ?thesis by (simp add: cmd_approve_def ok)
  qed
qed

lemma handle_requests_funded: "requests_funded b \<Longrightarrow> requests_funded (fst (handle U cfg b e))"
  by (cases e)
     (simp_all add: F_start F_get_number F_account F_withdraw F_withdraw_text F_sync
        F_withdrawals F_approve F_stats F_poll)

lemma run_requests_funded: "requests_funded b \<Longrightarrow> requests_funded (fst (run U cfg evs b))"
proof (induction evs arbitrary: b)
  case Nil
  then show ?case by simp
next
  case (Cons e evs)
  from Cons.IH [OF handle_requests_funded [OF Cons.prems, of U cfg e]]
  show ?case by (simp only: run_Cons)
qed

lemma on_startup_requests_funded: "requests_funded (on_startup U cfg now fetched)"
  by (simp add: requests_funded_def on_startup_withdrawals) (simp add: on_startup_def)

lemma requests_have_balance_rows:
  assumes "pending_request (store (fst (run U cfg evs (on_startup U cfg now fetched)))) wid = Some row"
  shows "has_balance_row (store (fst (run U cfg evs (on_startup U cfg now fetched)))) (w_user_id row)"
proof -
  let ?s = "store (fst (run U cfg evs (on_startup U cfg now fetched)))"
  have "requests_funded (fst (run U cfg evs (on_startup U cfg now fetched)))"
    by (rule run_requests_funded [OF on_startup_requests_funded])
  then have a: "\<And>r. r \<in> set (withdrawals ?s) \<Longrightarrow> has_balance_row ?s (w_user_id r)"
    by (simp add: requests_funded_def list_all_iff)
  from assms have "row \<in> set (withdrawals ?s)"
    by (auto simp: pending_request_def find_Some_iff in_set_conv_nth)
  then show ?thesis by (rule a)
qed

end
